theory Spec2Isabelle
  imports Main "HOL-Library.Word" "HOL-Library.Log_Nat"
begin

section \<open>Process enumeration for Unix (lib/procinfo_unix.cpp)\<close>

text \<open>
  The file has one function, \<open>procinfo_setup\<close>, compiled in one of two ways: the
  text-format build (Linux) reads one line of \<open>/proc/PID/stat\<close> and hands it to
  \<open>PROC_STAT::parse\<close>; the binary-struct build (Solaris) reads \<open>psinfo_t\<close> and
  \<open>prusage_t\<close> with \<open>fread\<close>. Both builds are embedded, each as the preprocessor
  leaves it.
\<close>

subsection \<open>Characters and C strings\<close>

text \<open>\<open>isspace\<close> and \<open>isdigit\<close> of the C locale: space, and the controls 9 to 13.\<close>

definition isspace :: "char \<Rightarrow> bool" where
  "isspace c = (let n = (of_char c :: nat) in n = 32 \<or> (9 \<le> n \<and> n \<le> 13))"

definition isdigit :: "char \<Rightarrow> bool" where
  "isdigit c = (let n = (of_char c :: nat) in 48 \<le> n \<and> n \<le> 57)"

definition digit_val :: "char \<Rightarrow> int" where
  "digit_val c = int (of_char c) - 48"

text \<open>The value of a run of decimal digits, most significant first.\<close>

definition dec :: "string \<Rightarrow> int" where
  "dec ds = foldl (\<lambda>a c. 10 * a + digit_val c) 0 ds"

subsection \<open>The raw record: struct PROC\_STAT\<close>

text \<open>
  \<open>int\<close> is 32 bits, \<open>long long\<close> and \<open>unsigned long long\<close> are 64 bits. A signed
  field is a word read with \<open>sint\<close>, an unsigned one a word read with \<open>uint\<close>.
\<close>

type_synonym c_int = "32 word"
type_synonym c_llong = "64 word"
type_synonym c_ullong = "64 word"

record PROC_STAT =
  pid :: c_int
  comm :: string
  state :: char
  ppid :: c_llong
  pgrp :: c_llong
  session :: c_llong
  tty_nr :: c_llong
  tpgid :: c_llong
  flags :: c_ullong
  minflt :: c_ullong
  cminflt :: c_ullong
  majflt :: c_ullong
  cmajflt :: c_ullong
  utime :: c_ullong
  stime :: c_ullong
  cutime :: c_llong
  cstime :: c_llong
  priority :: c_llong
  nice :: c_llong
  zero :: c_llong
  itrealvalue :: c_llong
  starttime :: c_ullong
  vsize :: c_ullong
  rss :: c_llong
  rlim :: c_ullong
  startcode :: c_ullong
  endcode :: c_ullong
  startstack :: c_ullong
  kstkesp :: c_ullong
  kstkeip :: c_ullong
  signal :: c_ullong
  blocked :: c_ullong
  sigignore :: c_ullong
  sigcatch :: c_ullong
  wchan :: c_ullong
  nswap :: c_ullong
  cnswap :: c_ullong
  exit_signal :: c_llong
  processor :: c_llong

subsection \<open>sscanf on the format of PROC\_STAT::parse\<close>

text \<open>
  An integer conversion (\<open>%d\<close>, \<open>%lld\<close>, \<open>%llu\<close>) skips white space, takes an
  optional sign and the longest run of decimal digits, and fails when the run is empty.
  The result is the sign, the magnitude and the rest of the input.
\<close>

definition scan_int :: "string \<Rightarrow> (bool \<times> int \<times> string) option" where
  "scan_int s =
     (let s1 = dropWhile isspace s;
          neg = (case s1 of [] \<Rightarrow> False | c # _ \<Rightarrow> c = CHR ''-'');
          s2 = (case s1 of [] \<Rightarrow> s1
                | c # t \<Rightarrow> if c = CHR ''-'' \<or> c = CHR ''+'' then t else s1);
          ds = takeWhile isdigit s2
      in if ds = [] then None else Some (neg, dec ds, dropWhile isdigit s2))"

text \<open>
  What is stored. C leaves a digit string that does not fit the object undefined; the
  GNU C library converts with \<open>strtol\<close>, \<open>strtoll\<close> and \<open>strtoull\<close>, which saturate,
  and stores a \<open>%d\<close> result truncated to \<open>int\<close> (\<open>long\<close> taken as 64 bits). A
  negative input to \<open>%llu\<close> is negated in the unsigned type.
\<close>

definition strtoll_val :: "bool \<Rightarrow> int \<Rightarrow> int" where
  "strtoll_val neg m = max (- (2 ^ 63)) (min (2 ^ 63 - 1) (if neg then - m else m))"

definition conv_d :: "bool \<Rightarrow> int \<Rightarrow> c_int" where
  "conv_d neg m = word_of_int (strtoll_val neg m)"

definition conv_lld :: "bool \<Rightarrow> int \<Rightarrow> c_llong" where
  "conv_lld neg m = word_of_int (strtoll_val neg m)"

definition conv_llu :: "bool \<Rightarrow> int \<Rightarrow> c_ullong" where
  "conv_llu neg m =
     (if m > 2 ^ 64 - 1 then - 1 else if neg then - word_of_int m else word_of_int m)"

text \<open>
  A directive of the format, with the pointer argument of a conversion as the function
  that stores through it.
\<close>

datatype directive =
    D_space
  | D_lit char
  | D_d "c_int \<Rightarrow> PROC_STAT \<Rightarrow> PROC_STAT"
  | D_lld "c_llong \<Rightarrow> PROC_STAT \<Rightarrow> PROC_STAT"
  | D_llu "c_ullong \<Rightarrow> PROC_STAT \<Rightarrow> PROC_STAT"
  | D_c "char \<Rightarrow> PROC_STAT \<Rightarrow> PROC_STAT"
  | D_set_not char "string \<Rightarrow> PROC_STAT \<Rightarrow> PROC_STAT"

text \<open>
  The directives run in order on the rest of the input; \<open>n\<close> counts the conversions
  stored so far, and the first directive that fails ends the scan with the count and the
  fields as they are then. White space in the format skips any white space, also none;
  \<open>%c\<close> and \<open>%[^)]\<close> do not skip white space; \<open>%[^)]\<close> needs at least one character.
  \<open>%[^)]\<close> has no field width: a name of 256 characters or more is written past the end
  of \<open>comm\<close>, which C leaves undefined; the model stores the whole name.
\<close>

fun sscanf_run :: "directive list \<Rightarrow> string \<Rightarrow> nat \<Rightarrow> PROC_STAT \<Rightarrow> nat \<times> PROC_STAT" where
  "sscanf_run [] s n ps = (n, ps)"
| "sscanf_run (D_space # ds) s n ps = sscanf_run ds (dropWhile isspace s) n ps"
| "sscanf_run (D_lit c # ds) s n ps =
     (case s of [] \<Rightarrow> (n, ps)
      | x # t \<Rightarrow> if x = c then sscanf_run ds t n ps else (n, ps))"
| "sscanf_run (D_d st # ds) s n ps =
     (case scan_int s of None \<Rightarrow> (n, ps)
      | Some (neg, m, r) \<Rightarrow> sscanf_run ds r (Suc n) (st (conv_d neg m) ps))"
| "sscanf_run (D_lld st # ds) s n ps =
     (case scan_int s of None \<Rightarrow> (n, ps)
      | Some (neg, m, r) \<Rightarrow> sscanf_run ds r (Suc n) (st (conv_lld neg m) ps))"
| "sscanf_run (D_llu st # ds) s n ps =
     (case scan_int s of None \<Rightarrow> (n, ps)
      | Some (neg, m, r) \<Rightarrow> sscanf_run ds r (Suc n) (st (conv_llu neg m) ps))"
| "sscanf_run (D_c st # ds) s n ps =
     (case s of [] \<Rightarrow> (n, ps)
      | x # t \<Rightarrow> sscanf_run ds t (Suc n) (st x ps))"
| "sscanf_run (D_set_not c st # ds) s n ps =
     (let m = takeWhile (\<lambda>x. x \<noteq> c) s
      in if m = [] then (n, ps)
         else sscanf_run ds (dropWhile (\<lambda>x. x \<noteq> c) s) (Suc n) (st m ps))"

text \<open>The format string of \<open>PROC_STAT::parse\<close>, line by line, with its 39 arguments.\<close>

definition stat_format :: "directive list" where
  "stat_format =
    [D_d (\<lambda>v ps. ps\<lparr>pid := v\<rparr>), D_space, D_lit CHR ''('',
     D_set_not CHR '')'' (\<lambda>v ps. ps\<lparr>comm := v\<rparr>), D_lit CHR '')'', D_space,
     D_c (\<lambda>v ps. ps\<lparr>state := v\<rparr>), D_space,
     D_lld (\<lambda>v ps. ps\<lparr>ppid := v\<rparr>), D_space,
     D_lld (\<lambda>v ps. ps\<lparr>pgrp := v\<rparr>), D_space,
     D_lld (\<lambda>v ps. ps\<lparr>session := v\<rparr>), D_space,
     D_lld (\<lambda>v ps. ps\<lparr>tty_nr := v\<rparr>), D_space,
     D_lld (\<lambda>v ps. ps\<lparr>tpgid := v\<rparr>), D_space,

     D_llu (\<lambda>v ps. ps\<lparr>flags := v\<rparr>), D_space,
     D_llu (\<lambda>v ps. ps\<lparr>minflt := v\<rparr>), D_space,
     D_llu (\<lambda>v ps. ps\<lparr>cminflt := v\<rparr>), D_space,
     D_llu (\<lambda>v ps. ps\<lparr>majflt := v\<rparr>), D_space,
     D_llu (\<lambda>v ps. ps\<lparr>cmajflt := v\<rparr>), D_space,
     D_llu (\<lambda>v ps. ps\<lparr>utime := v\<rparr>), D_space,
     D_llu (\<lambda>v ps. ps\<lparr>stime := v\<rparr>), D_space,

     D_lld (\<lambda>v ps. ps\<lparr>cutime := v\<rparr>), D_space,
     D_lld (\<lambda>v ps. ps\<lparr>cstime := v\<rparr>), D_space,
     D_lld (\<lambda>v ps. ps\<lparr>priority := v\<rparr>), D_space,
     D_lld (\<lambda>v ps. ps\<lparr>nice := v\<rparr>), D_space,
     D_lld (\<lambda>v ps. ps\<lparr>zero := v\<rparr>), D_space,
     D_lld (\<lambda>v ps. ps\<lparr>itrealvalue := v\<rparr>), D_space,

     D_llu (\<lambda>v ps. ps\<lparr>starttime := v\<rparr>), D_space,
     D_llu (\<lambda>v ps. ps\<lparr>vsize := v\<rparr>), D_space,

     D_lld (\<lambda>v ps. ps\<lparr>rss := v\<rparr>), D_space,

     D_llu (\<lambda>v ps. ps\<lparr>rlim := v\<rparr>), D_space,
     D_llu (\<lambda>v ps. ps\<lparr>startcode := v\<rparr>), D_space,
     D_llu (\<lambda>v ps. ps\<lparr>endcode := v\<rparr>), D_space,
     D_llu (\<lambda>v ps. ps\<lparr>startstack := v\<rparr>), D_space,
     D_llu (\<lambda>v ps. ps\<lparr>kstkesp := v\<rparr>), D_space,
     D_llu (\<lambda>v ps. ps\<lparr>kstkeip := v\<rparr>), D_space,
     D_llu (\<lambda>v ps. ps\<lparr>signal := v\<rparr>), D_space,
     D_llu (\<lambda>v ps. ps\<lparr>blocked := v\<rparr>), D_space,
     D_llu (\<lambda>v ps. ps\<lparr>sigignore := v\<rparr>), D_space,
     D_llu (\<lambda>v ps. ps\<lparr>sigcatch := v\<rparr>), D_space,
     D_llu (\<lambda>v ps. ps\<lparr>wchan := v\<rparr>), D_space,
     D_llu (\<lambda>v ps. ps\<lparr>nswap := v\<rparr>), D_space,
     D_llu (\<lambda>v ps. ps\<lparr>cnswap := v\<rparr>), D_space,

     D_lld (\<lambda>v ps. ps\<lparr>exit_signal := v\<rparr>), D_space,
     D_lld (\<lambda>v ps. ps\<lparr>processor := v\<rparr>)]"

text \<open>
  The value of the call: the number of conversions stored, or \<open>EOF\<close> (-1) when the
  input ends before the first conversion.
\<close>

definition sscanf_stat :: "string \<Rightarrow> PROC_STAT \<Rightarrow> int \<times> PROC_STAT" where
  "sscanf_stat buf ps =
     (let (n, ps') = sscanf_run stat_format buf 0 ps
      in (if n = 0 \<and> dropWhile isspace buf = [] then - 1 else int n, ps'))"

text \<open>
  \<open>PROC_STAT::parse\<close> writes into the object it is called on and returns 0 or 1. The
  message it prints to \<open>stderr\<close> on failure is not part of the value.
\<close>

definition parse :: "string \<Rightarrow> PROC_STAT \<Rightarrow> int \<times> PROC_STAT" where
  "parse buf ps =
     (let (n, ps') = sscanf_stat buf ps
      in if n = 39 then (0, ps') else (1, ps'))"

subsection \<open>Floating point\<close>

text \<open>
  A \<open>float\<close> or \<open>double\<close> value is the rational number it stands for. Every conversion
  and every operation rounds its exact result to the nearest value with 24 (\<open>float\<close>) or
  53 (\<open>double\<close>) significant bits, ties to the even significand, each operation in the
  precision of its C type. The exponent is not bounded: the values of this file stay far
  inside the range of either format, so neither overflow nor a subnormal result occurs.

  \<open>fl_exponent a\<close>, for \<open>a > 0\<close>, is the \<open>t\<close> with \<open>2 ^ (t - 1) \<le> a < 2 ^ t\<close>.
\<close>

type_synonym c_double = rat

definition fl_exponent :: "rat \<Rightarrow> int" where
  "fl_exponent a =
     (if 1 \<le> a then bitlen \<lfloor>a\<rfloor>
      else let b = bitlen \<lfloor>1 / a\<rfloor>
           in if 1 \<le> a * power_int 2 (b - 1) then 2 - b else 1 - b)"

definition fl_round :: "nat \<Rightarrow> rat \<Rightarrow> rat" where
  "fl_round p x =
     (if x = 0 then 0
      else let a = \<bar>x\<bar>;
               e = fl_exponent a - int p;
               m = a * power_int 2 (- e);
               q = \<lfloor>m\<rfloor>;
               r = m - of_int q;
               q' = (if 1 / 2 < r \<or> (r = 1 / 2 \<and> odd q) then q + 1 else q)
           in sgn x * of_int q' * power_int 2 e)"

definition float_of_int :: "int \<Rightarrow> rat" where
  "float_of_int n = fl_round 24 (of_int n)"

definition double_of_int :: "int \<Rightarrow> c_double" where
  "double_of_int n = fl_round 53 (of_int n)"

definition float_mul :: "rat \<Rightarrow> rat \<Rightarrow> rat" where
  "float_mul a b = fl_round 24 (a * b)"

definition double_mul :: "c_double \<Rightarrow> c_double \<Rightarrow> c_double" where
  "double_mul a b = fl_round 53 (a * b)"

definition double_div :: "c_double \<Rightarrow> c_double \<Rightarrow> c_double" where
  "double_div a b = fl_round 53 (a / b)"

definition double_add :: "c_double \<Rightarrow> c_double \<Rightarrow> c_double" where
  "double_add a b = fl_round 53 (a + b)"

subsection \<open>The normalized record and the snapshot\<close>

text \<open>
  Modelled from the spec: \<open>struct PROCINFO\<close>, \<open>PROCINFO::clear\<close>, \<open>PROC_MAP\<close> and
  \<open>find_children\<close> are declared in procinfo.h and defined in procinfo.cpp, which are not
  among the sources. The record has the fields of the specification's table, with the
  types the assignments of \<open>procinfo_setup\<close> give them, and the list of children that
  the lineage step fills in. \<open>clear\<close> sets every field to zero or empty.
\<close>

record PROCINFO =
  id' :: c_int
  parentid :: c_int
  command :: string
  swap_size :: c_double
  working_set_size :: c_double
  page_fault_count :: "64 word"
  user_time :: c_double
  kernel_time :: c_double
  is_boinc_app :: bool
  is_low_priority :: bool
  children :: "c_int list"

definition clear :: PROCINFO where
  "clear = \<lparr>id' = 0, parentid = 0, command = [], swap_size = 0, working_set_size = 0,
     page_fault_count = 0, user_time = 0, kernel_time = 0, is_boinc_app = False,
     is_low_priority = False, children = []\<rparr>"

text \<open>
  \<open>PROC_MAP\<close> is a \<open>std::map\<close> from \<open>int\<close> to \<open>PROCINFO\<close>: a list of pairs in
  ascending order of the signed key, each key once. \<open>std::map::insert\<close> adds the pair when
  the key is absent and leaves the map as it is when the key is present.
\<close>

type_synonym PROC_MAP = "(c_int \<times> PROCINFO) list"

definition pm_insert :: "c_int \<Rightarrow> PROCINFO \<Rightarrow> PROC_MAP \<Rightarrow> PROC_MAP" where
  "pm_insert k v pm =
     (if k \<in> set (map fst pm) then pm else insort_key (\<lambda>e. sint (fst e)) (k, v) pm)"

text \<open>
  Modelled from the spec: the lineage step derives the parent to children relation from
  each entry's \<open>parentid\<close>; it adds to entries and neither removes one nor changes a key,
  an \<open>id\<close> or a \<open>parentid\<close>.
\<close>

definition find_children :: "PROC_MAP \<Rightarrow> PROC_MAP" where
  "find_children pm =
     map (\<lambda>(k, p). (k, p\<lparr>children := children p @ map fst (filter (\<lambda>(c, q). parentid q = k) pm)\<rparr>)) pm"

subsection \<open>Library functions on strings\<close>

definition tolower :: "char \<Rightarrow> char" where
  "tolower c = (let n = (of_char c :: nat) in if 65 \<le> n \<and> n \<le> 90 then char_of (n + 32) else c)"

text \<open>\<open>strcasestr\<close>, as the test the code makes of it: whether the result is not null.\<close>

fun strcasestr :: "string \<Rightarrow> string \<Rightarrow> bool" where
  "strcasestr [] needle = (needle = [])"
| "strcasestr (c # hay) needle =
     (take (length needle) (map tolower (c # hay)) = map tolower needle \<or> strcasestr hay needle)"

text \<open>\<open>strlcpy\<close> into a cleared buffer of \<open>size\<close> bytes keeps at most \<open>size - 1\<close> characters.\<close>

definition strlcpy :: "string \<Rightarrow> nat \<Rightarrow> string" where
  "strlcpy src sz = take (sz - 1) src"

text \<open>
  \<open>fgets\<close> on a file just opened: null when nothing can be read, else at most
  \<open>size - 1\<close> characters, up to and including the first newline. The buffer is then read
  as a C string, which ends at its first zero byte.
\<close>

fun fgets_chars :: "nat \<Rightarrow> string \<Rightarrow> string" where
  "fgets_chars 0 s = []"
| "fgets_chars (Suc k) [] = []"
| "fgets_chars (Suc k) (c # s) = (if c = CHR 0x0A then [c] else c # fgets_chars k s)"

definition fgets :: "nat \<Rightarrow> string \<Rightarrow> string option" where
  "fgets sz content =
     (if content = [] then None
      else Some (takeWhile (\<lambda>c. c \<noteq> CHR 0x00) (fgets_chars (sz - 1) content)))"

subsection \<open>procinfo\_setup, text-format build (Linux)\<close>

text \<open>
  What the function takes from outside itself. \<open>ERR_NULL\<close> (error\_numbers.h) and
  \<open>sizeof(p.command)\<close> (procinfo.h) are constants of headers that are not among the
  sources, so they are parameters. \<open>proc_dir\<close> is \<open>None\<close> when \<open>opendir("/proc")\<close>
  fails, and else the entries in the order \<open>readdir\<close> returns them, each with what
  \<open>fopen\<close> of its \<open>stat\<close> file gives at that moment: \<open>None\<close> when the file cannot be
  opened, else the bytes of the file.
\<close>

record linux_host =
  ERR_NULL :: int
  command_size :: nat
  getpid :: c_int
  getpagesize :: c_int
  proc_dir :: "(string \<times> string option) list option"

text \<open>\<open>d_name[0]\<close>: the first character of the name, the terminating zero for an empty one.\<close>

definition first_char :: "string \<Rightarrow> char" where
  "first_char d_name = (case d_name of [] \<Rightarrow> CHR 0x00 | c # _ \<Rightarrow> c)"

text \<open>
  The entry built from a parsed record (the statements from \<open>p.clear()\<close> up to the
  insertion). \<open>ps.rss * (float)getpagesize()\<close> is a product of two \<open>float\<close>s;
  \<open>ps.vsize\<close> is stored as it is; \<open>ps.utime / 100.\<close> is a quotient of \<open>double\<close>s.
\<close>

definition linux_procinfo :: "linux_host \<Rightarrow> PROC_STAT \<Rightarrow> PROCINFO" where
  "linux_procinfo h ps =
     (let p = clear
        \<lparr>id' := pid ps,
         parentid := ucast (ppid ps),
         swap_size := double_of_int (uint (vsize ps)),
         working_set_size :=
           float_mul (float_of_int (sint (rss ps))) (float_of_int (sint (getpagesize h))),
         page_fault_count := majflt ps + minflt ps,
         user_time := double_div (double_of_int (uint (utime ps))) 100,
         kernel_time := double_div (double_of_int (uint (stime ps))) 100,
         command := strlcpy (comm ps) (command_size h)\<rparr>
      in p\<lparr>is_boinc_app := (id' p = getpid h \<or> strcasestr (command p) ''boinc''),
           is_low_priority := (priority ps = 39)\<rparr>)"

text \<open>
  Reading the opened \<open>stat\<close> file: \<open>retval\<close> is \<open>ERR_NULL\<close> when \<open>fgets\<close> returns
  null, and else what \<open>ps.parse(buf)\<close> returns, which also writes \<open>ps\<close>.
\<close>

definition read_stat :: "linux_host \<Rightarrow> string \<Rightarrow> PROC_STAT \<Rightarrow> int \<times> PROC_STAT" where
  "read_stat h content ps =
     (case fgets 1024 content of
        None \<Rightarrow> (ERR_NULL h, ps)
      | Some buf \<Rightarrow> parse buf ps)"

text \<open>
  The body of the \<open>while\<close> loop, run once for each entry \<open>readdir\<close> returns, on the
  variables that live across iterations: \<open>ps\<close>, \<open>final_retval\<close> and the map.
\<close>

fun linux_entry ::
  "linux_host \<Rightarrow> PROC_STAT \<times> int \<times> PROC_MAP \<Rightarrow> string \<times> string option \<Rightarrow>
     PROC_STAT \<times> int \<times> PROC_MAP"
where
  "linux_entry h (ps, final_retval, pm) (d_name, stat) =
     (if \<not> isdigit (first_char d_name) then (ps, final_retval, pm)
      else case stat of
        None \<Rightarrow> (ps, final_retval, pm)
      | Some content \<Rightarrow>
          let (retval, ps') = read_stat h content ps
          in if retval \<noteq> 0 then (ps', retval, pm)
             else let p = linux_procinfo h ps'
                  in (ps', final_retval, pm_insert (id' p) p pm))"

text \<open>
  \<open>procinfo_setup\<close>: \<open>pm\<close> is the caller's map, \<open>ps0\<close> the contents of the local \<open>ps\<close>
  before anything is stored in it. The result is the returned status and the map.
\<close>

definition procinfo_setup_linux :: "linux_host \<Rightarrow> PROC_STAT \<Rightarrow> PROC_MAP \<Rightarrow> int \<times> PROC_MAP" where
  "procinfo_setup_linux h ps0 pm =
     (case proc_dir h of
        None \<Rightarrow> (0, pm)
      | Some entries \<Rightarrow>
          let (ps, final_retval, pm') = foldl (linux_entry h) (ps0, 0, pm) entries
          in (final_retval, find_children pm'))"

subsection \<open>procinfo\_setup, binary-struct build (Solaris)\<close>

text \<open>
  \<open>psinfo_t\<close> and \<open>prusage_t\<close> are declared by the system header procfs.h; the records
  have the members the code reads, with the widths of a 64-bit build.
\<close>

record psinfo_t =
  pr_pid :: c_int
  pr_ppid :: c_int
  pr_size :: "64 word"
  pr_rssize :: "64 word"
  pr_fname :: string

record timestruc_t =
  tv_sec :: "64 word"
  tv_nsec :: "64 word"

record prusage_t =
  pr_utime :: timestruc_t
  pr_stime :: timestruc_t
  pr_minf :: "64 word"
  pr_majf :: "64 word"

text \<open>
  Each entry of the directory comes with what \<open>fopen\<close> of its \<open>psinfo\<close> and of its
  \<open>usage\<close> file gives (\<open>None\<close> when the file cannot be opened), and for an opened file
  what \<open>fread\<close> of one whole structure gives: the structure, or \<open>None\<close> when the file
  holds fewer bytes than the structure and \<open>fread\<close> returns 0.
\<close>

record solaris_host =
  s_command_size :: nat
  s_getpid :: c_int
  s_proc_dir :: "(string \<times> psinfo_t option option \<times> prusage_t option option) list option"

definition solaris_psinfo :: "solaris_host \<Rightarrow> psinfo_t \<Rightarrow> PROCINFO \<Rightarrow> PROCINFO" where
  "solaris_psinfo h psinfo p =
     p\<lparr>id' := pr_pid psinfo,
       parentid := pr_ppid psinfo,
       swap_size := double_mul (double_of_int (uint (pr_size psinfo))) 1024,
       working_set_size := double_mul (double_of_int (uint (pr_rssize psinfo))) 1024,
       command := strlcpy (pr_fname psinfo) (s_command_size h)\<rparr>"

definition solaris_usage :: "prusage_t \<Rightarrow> PROCINFO \<Rightarrow> PROCINFO" where
  "solaris_usage prusage p =
     p\<lparr>user_time :=
         double_add (float_of_int (sint (tv_sec (pr_utime prusage))))
           (double_div (float_of_int (sint (tv_nsec (pr_utime prusage)))) (10 ^ 9)),
       kernel_time :=
         double_add (float_of_int (sint (tv_sec (pr_stime prusage))))
           (double_div (float_of_int (sint (tv_nsec (pr_utime prusage)))) (10 ^ 9)),
       page_fault_count := pr_majf prusage + pr_minf prusage\<rparr>"

fun solaris_entry ::
  "solaris_host \<Rightarrow> int \<times> PROC_MAP \<Rightarrow> string \<times> psinfo_t option option \<times> prusage_t option option \<Rightarrow>
     int \<times> PROC_MAP"
where
  "solaris_entry h (final_retval, pm) (d_name, psinfo_file, usage_file) =
     (if \<not> isdigit (first_char d_name) then (final_retval, pm)
      else case psinfo_file of
        None \<Rightarrow> (final_retval, pm)
      | Some psinfo_read \<Rightarrow>
          let p = clear;
              p = (case psinfo_read of None \<Rightarrow> p | Some psinfo \<Rightarrow> solaris_psinfo h psinfo p)
          in case usage_file of
               None \<Rightarrow> (final_retval, pm)
             | Some usage_read \<Rightarrow>
                 let p = (case usage_read of None \<Rightarrow> p | Some prusage \<Rightarrow> solaris_usage prusage p);
                     p = p\<lparr>is_boinc_app :=
                            (id' p = s_getpid h \<or> strcasestr (command p) ''boinc'')\<rparr>
                 in (final_retval, pm_insert (id' p) p pm))"

definition procinfo_setup_solaris :: "solaris_host \<Rightarrow> PROC_MAP \<Rightarrow> int \<times> PROC_MAP" where
  "procinfo_setup_solaris h pm =
     (case s_proc_dir h of
        None \<Rightarrow> (0, pm)
      | Some entries \<Rightarrow>
          let (final_retval, pm') = foldl (solaris_entry h) (0, pm) entries
          in (final_retval, find_children pm'))"

subsection \<open>Concrete inputs\<close>

text \<open>
  Inputs on which the functions are run below. \<open>ps_start\<close> stands for the contents of the
  local \<open>ps\<close> before the first record is parsed, which C leaves indeterminate.
\<close>

definition ps_start :: PROC_STAT where
  "ps_start = \<lparr>pid = 4711, comm = ''stale'', state = CHR ''Z'', ppid = 1, pgrp = 2,
     session = 3, tty_nr = 4, tpgid = 5, flags = 6, minflt = 7, cminflt = 8, majflt = 9,
     cmajflt = 10, utime = 11, stime = 12, cutime = 13, cstime = 14, priority = 39,
     nice = 16, zero = 17, itrealvalue = 18, starttime = 19, vsize = 20, rss = 21,
     rlim = 22, startcode = 23, endcode = 24, startstack = 25, kstkesp = 26,
     kstkeip = 27, signal = 28, blocked = 29, sigignore = 30, sigcatch = 31, wchan = 32,
     nswap = 33, cnswap = 34, exit_signal = 35, processor = 36\<rparr>"

definition linux_no_proc :: linux_host where
  "linux_no_proc = \<lparr>ERR_NULL = - 116, command_size = 256, getpid = 99,
     getpagesize = 4096, proc_dir = None\<rparr>"

definition solaris_no_proc :: solaris_host where
  "solaris_no_proc = \<lparr>s_command_size = 256, s_getpid = 99, s_proc_dir = None\<rparr>"

text \<open>
  Lines in the format of \<open>/proc/PID/stat\<close>: two for a process 7, one for a process 12,
  and the first with a 40th field added.
\<close>

definition stat_line_7 :: string where
  "stat_line_7 = ''7 (first) S 1 7 7 0 -1 4194560 1000 0 30 0 500 600 0 0 39 19 1 0 9 166912000 300 18446744073709551615 1 1 0 0 0 0 0 4096 0 0 0 0 17 3''"

definition stat_line_7b :: string where
  "stat_line_7b = ''7 (second) R 1 7 7 0 -1 4194560 2000 0 60 0 700 800 0 0 20 0 1 0 9 200000000 400 18446744073709551615 1 1 0 0 0 0 0 4096 0 0 0 0 17 1''"

definition stat_line_12 :: string where
  "stat_line_12 = ''12 (my BOINC app) S 7 12 7 0 -1 4194560 10 0 3 0 250 50 0 0 20 0 1 0 90 1 16777217 18446744073709551615 1 1 0 0 0 0 0 0 0 0 0 0 17 0''"


definition linux_on :: "(string \<times> string option) list \<Rightarrow> linux_host" where
  "linux_on es = \<lparr>ERR_NULL = - 116, command_size = 256, getpid = 99, getpagesize = 4096,
     proc_dir = Some es\<rparr>"

definition mixed_dir :: "(string \<times> string option) list" where
  "mixed_dir =
     [(''self'', Some stat_line_7), (''7'', Some stat_line_7), (''9'', Some ''9 (x) S 1''),
      (''10'', Some []), (''11'', None), (''12'', Some stat_line_12)]"

definition solaris_on ::
  "(string \<times> psinfo_t option option \<times> prusage_t option option) list \<Rightarrow> solaris_host" where
  "solaris_on es = \<lparr>s_command_size = 256, s_getpid = 99, s_proc_dir = Some es\<rparr>"

definition usage_5 :: prusage_t where
  "usage_5 = \<lparr>pr_utime = \<lparr>tv_sec = 2, tv_nsec = 500000000\<rparr>,
     pr_stime = \<lparr>tv_sec = 3, tv_nsec = 0\<rparr>, pr_minf = 1, pr_majf = 2\<rparr>"

definition psinfo_5 :: psinfo_t where
  "psinfo_5 = \<lparr>pr_pid = 5, pr_ppid = 1, pr_size = 2000, pr_rssize = 300, pr_fname = ''sshd''\<rparr>"

subsection \<open>Fields written by a scan\<close>

text \<open>
  Two records agree up to \<open>n\<close> when they have the same first \<open>n\<close> fields, in the order
  of the arguments of \<open>sscanf\<close>. \<open>stores_agree ds n\<close> says that the stores of the
  conversions of \<open>ds\<close>, of which \<open>n\<close> came before, each write the next field.
\<close>

definition agree :: "nat \<Rightarrow> PROC_STAT \<Rightarrow> PROC_STAT \<Rightarrow> bool" where
  "agree n a b =
     ((0 < n \<longrightarrow> pid a = pid b) \<and>
      (1 < n \<longrightarrow> comm a = comm b) \<and>
      (2 < n \<longrightarrow> state a = state b) \<and>
      (3 < n \<longrightarrow> ppid a = ppid b) \<and>
      (4 < n \<longrightarrow> pgrp a = pgrp b) \<and>
      (5 < n \<longrightarrow> session a = session b) \<and>
      (6 < n \<longrightarrow> tty_nr a = tty_nr b) \<and>
      (7 < n \<longrightarrow> tpgid a = tpgid b) \<and>
      (8 < n \<longrightarrow> flags a = flags b) \<and>
      (9 < n \<longrightarrow> minflt a = minflt b) \<and>
      (10 < n \<longrightarrow> cminflt a = cminflt b) \<and>
      (11 < n \<longrightarrow> majflt a = majflt b) \<and>
      (12 < n \<longrightarrow> cmajflt a = cmajflt b) \<and>
      (13 < n \<longrightarrow> utime a = utime b) \<and>
      (14 < n \<longrightarrow> stime a = stime b) \<and>
      (15 < n \<longrightarrow> cutime a = cutime b) \<and>
      (16 < n \<longrightarrow> cstime a = cstime b) \<and>
      (17 < n \<longrightarrow> priority a = priority b) \<and>
      (18 < n \<longrightarrow> nice a = nice b) \<and>
      (19 < n \<longrightarrow> zero a = zero b) \<and>
      (20 < n \<longrightarrow> itrealvalue a = itrealvalue b) \<and>
      (21 < n \<longrightarrow> starttime a = starttime b) \<and>
      (22 < n \<longrightarrow> vsize a = vsize b) \<and>
      (23 < n \<longrightarrow> rss a = rss b) \<and>
      (24 < n \<longrightarrow> rlim a = rlim b) \<and>
      (25 < n \<longrightarrow> startcode a = startcode b) \<and>
      (26 < n \<longrightarrow> endcode a = endcode b) \<and>
      (27 < n \<longrightarrow> startstack a = startstack b) \<and>
      (28 < n \<longrightarrow> kstkesp a = kstkesp b) \<and>
      (29 < n \<longrightarrow> kstkeip a = kstkeip b) \<and>
      (30 < n \<longrightarrow> signal a = signal b) \<and>
      (31 < n \<longrightarrow> blocked a = blocked b) \<and>
      (32 < n \<longrightarrow> sigignore a = sigignore b) \<and>
      (33 < n \<longrightarrow> sigcatch a = sigcatch b) \<and>
      (34 < n \<longrightarrow> wchan a = wchan b) \<and>
      (35 < n \<longrightarrow> nswap a = nswap b) \<and>
      (36 < n \<longrightarrow> cnswap a = cnswap b) \<and>
      (37 < n \<longrightarrow> exit_signal a = exit_signal b) \<and>
      (38 < n \<longrightarrow> processor a = processor b))"

fun stores_agree :: "directive list \<Rightarrow> nat \<Rightarrow> bool" where
  "stores_agree [] n = True"
| "stores_agree (D_space # ds) n = stores_agree ds n"
| "stores_agree (D_lit c # ds) n = stores_agree ds n"
| "stores_agree (D_d st # ds) n =
     ((\<forall>v a b. agree n a b \<longrightarrow> agree (Suc n) (st v a) (st v b)) \<and> stores_agree ds (Suc n))"
| "stores_agree (D_lld st # ds) n =
     ((\<forall>v a b. agree n a b \<longrightarrow> agree (Suc n) (st v a) (st v b)) \<and> stores_agree ds (Suc n))"
| "stores_agree (D_llu st # ds) n =
     ((\<forall>v a b. agree n a b \<longrightarrow> agree (Suc n) (st v a) (st v b)) \<and> stores_agree ds (Suc n))"
| "stores_agree (D_c st # ds) n =
     ((\<forall>v a b. agree n a b \<longrightarrow> agree (Suc n) (st v a) (st v b)) \<and> stores_agree ds (Suc n))"
| "stores_agree (D_set_not c st # ds) n =
     ((\<forall>v a b. agree n a b \<longrightarrow> agree (Suc n) (st v a) (st v b)) \<and> stores_agree ds (Suc n))"

subsection \<open>Notions used to state the properties\<close>

text \<open>
  The contents of the \<open>stat\<close> files that a scan reads: those of the entries whose name
  begins with a digit and whose file could be opened, in the order of the directory.
\<close>

definition accessible :: "(string \<times> string option) list \<Rightarrow> string list" where
  "accessible es =
     List.map_filter (\<lambda>(d_name, stat). if isdigit (first_char d_name) then stat else None) es"

text \<open>
  The entry that the loop body of the binary-struct build inserts for a directory entry
  both of whose files could be opened: the statements on \<open>p\<close>, in their order.
\<close>

definition solaris_procinfo :: "solaris_host \<Rightarrow> psinfo_t option \<Rightarrow> prusage_t option \<Rightarrow> PROCINFO" where
  "solaris_procinfo h psinfo_read usage_read =
     (let p = clear;
          p = (case psinfo_read of None \<Rightarrow> p | Some psinfo \<Rightarrow> solaris_psinfo h psinfo p);
          p = (case usage_read of None \<Rightarrow> p | Some prusage \<Rightarrow> solaris_usage prusage p)
      in p\<lparr>is_boinc_app := (id' p = s_getpid h \<or> strcasestr (command p) ''boinc'')\<rparr>)"

text \<open>The pairs of reads of the entries for which the binary-struct build inserts.\<close>

definition s_accessible ::
  "(string \<times> psinfo_t option option \<times> prusage_t option option) list \<Rightarrow>
     (psinfo_t option \<times> prusage_t option) list"
where
  "s_accessible es =
     List.map_filter (\<lambda>(d_name, psinfo_file, usage_file).
        if isdigit (first_char d_name)
        then (case psinfo_file of None \<Rightarrow> None
              | Some pr \<Rightarrow> (case usage_file of None \<Rightarrow> None | Some ur \<Rightarrow> Some (pr, ur)))
        else None) es"

text \<open>
  Containment without regard to case, in the specification's words: some part of the
  text, anywhere in it, is the sought text up to the case of its letters.
\<close>

definition contains_ci :: "string \<Rightarrow> string \<Rightarrow> bool" where
  "contains_ci hay needle \<longleftrightarrow>
     (\<exists>pre mid post. hay = pre @ mid @ post \<and> map tolower mid = map tolower needle)"

text \<open>The entries that the scans of the examples store.\<close>

definition entry_7 :: PROCINFO where
  "entry_7 = \<lparr>id' = 7, parentid = 1, command = ''first'', swap_size = 166912000,
     working_set_size = 1228800, page_fault_count = 1030, user_time = 5, kernel_time = 6,
     is_boinc_app = False, is_low_priority = True, children = []\<rparr>"

definition entry_12 :: PROCINFO where
  "entry_12 = \<lparr>id' = 12, parentid = 7, command = ''my BOINC app'', swap_size = 1,
     working_set_size = 68719476736, page_fault_count = 13, user_time = 5 / 2,
     kernel_time = 1 / 2, is_boinc_app = True, is_low_priority = False, children = []\<rparr>"

definition entry_5 :: PROCINFO where
  "entry_5 = \<lparr>id' = 5, parentid = 1, command = ''sshd'', swap_size = 2048000,
     working_set_size = 307200, page_fault_count = 3, user_time = 5 / 2,
     kernel_time = 7 / 2, is_boinc_app = False, is_low_priority = False, children = []\<rparr>"

text \<open>The record that \<open>stat_line_7\<close> parses to.\<close>

definition rec_7 :: PROC_STAT where
  "rec_7 = \<lparr>pid = 7, comm = ''first'', state = CHR ''S'', ppid = 1, pgrp = 7,
     session = 7, tty_nr = 0, tpgid = - 1, flags = 4194560, minflt = 1000, cminflt = 0,
     majflt = 30, cmajflt = 0, utime = 500, stime = 600, cutime = 0, cstime = 0,
     priority = 39, nice = 19, zero = 1, itrealvalue = 0, starttime = 9,
     vsize = 166912000, rss = 300, rlim = 18446744073709551615, startcode = 1,
     endcode = 1, startstack = 0, kstkesp = 0, kstkeip = 0, signal = 0, blocked = 0,
     sigignore = 4096, sigcatch = 0, wchan = 0, nswap = 0, cnswap = 0, exit_signal = 17,
     processor = 3\<rparr>"

subsection \<open>The layout of a stat line\<close>








subsection \<open>Writing a record as a stat line\<close>







section \<open>Verified properties\<close>

subsection \<open>The snapshot map\<close>

lemma pm_insert_present: "k \<in> fst ` set pm \<Longrightarrow> pm_insert k v pm = pm"
  by (simp add: pm_insert_def)

lemma pm_insert_absent:
  "k \<notin> fst ` set pm \<Longrightarrow> set (pm_insert k v pm) = insert (k, v) (set pm)"
  by (simp add: pm_insert_def set_insort_key)

lemma pm_insert_keys: "fst ` set (pm_insert k v pm) = insert k (fst ` set pm)"
  by (auto simp add: pm_insert_def set_insort_key)

lemma pm_insert_subset: "set pm \<subseteq> set (pm_insert k v pm)"
  by (auto simp add: pm_insert_def set_insort_key)

lemma pm_insert_cases:
  "e \<in> set (pm_insert k v pm) \<Longrightarrow> e \<in> set pm \<or> (e = (k, v) \<and> k \<notin> fst ` set pm)"
  by (auto simp add: pm_insert_def set_insort_key split: if_splits)

lemma pm_insert_sorted:
  "sorted (map (\<lambda>e. sint (fst e)) pm) \<Longrightarrow> sorted (map (\<lambda>e. sint (fst e)) (pm_insert k v pm))"
  by (simp add: pm_insert_def sorted_insort_key)

lemma find_children_keys: "map fst (find_children pm) = map fst pm"
  by (simp add: find_children_def case_prod_unfold comp_def)

lemma find_children_entry:
  "(k, p') \<in> set (find_children pm) \<Longrightarrow>
     \<exists>p. (k, p) \<in> set pm \<and> p' = p\<lparr>children := children p'\<rparr>"
  by (auto simp: find_children_def)

lemma find_children_entry_rev:
  "(k, p) \<in> set pm \<Longrightarrow> \<exists>cs. (k, p\<lparr>children := cs\<rparr>) \<in> set (find_children pm)"
  by (force simp: find_children_def)

subsection \<open>The process table cannot be opened\<close>

text \<open>
  Claim C8. When \<open>opendir("/proc")\<close> fails, \<open>procinfo_setup\<close> returns 0 at once, in
  either build, and the map is as the caller passed it: no entry is added, and a map
  that was created empty for the scan is returned empty.
\<close>

theorem procinfo_setup_unopened_dir:
  "(proc_dir h = None \<longrightarrow>
      procinfo_setup_linux h ps0 pm = (0, pm) \<and> procinfo_setup_linux h ps0 [] = (0, [])) \<and>
   (s_proc_dir hs = None \<longrightarrow>
      procinfo_setup_solaris hs pm = (0, pm) \<and> procinfo_setup_solaris hs [] = (0, []))"
  by (simp add: procinfo_setup_linux_def procinfo_setup_solaris_def)

theorem procinfo_setup_unopened_dir_witness:
  "proc_dir linux_no_proc = None \<and> s_proc_dir solaris_no_proc = None \<and>
   procinfo_setup_linux linux_no_proc ps_start [] = (0, []) \<and>
   procinfo_setup_solaris solaris_no_proc [] = (0, [])"
  using procinfo_setup_unopened_dir [of linux_no_proc ps_start "[]" solaris_no_proc]
  by (simp add: linux_no_proc_def solaris_no_proc_def)

subsection \<open>The value of parse does not depend on what the record held\<close>

lemma sscanf_run_agree:
  "stores_agree ds n \<Longrightarrow> agree n a b \<Longrightarrow>
     agree (fst (sscanf_run ds s n a)) (snd (sscanf_run ds s n a)) (snd (sscanf_run ds s n b))"
proof (induction ds s n a arbitrary: b rule: sscanf_run.induct)
  case (1 s n ps)
  then show ?case by simp
next
  case (2 ds s n ps)
  then show ?case by simp
next
  case (3 c ds s n ps)
  then show ?case by (cases s) simp_all
next
  case (4 st ds s n ps)
  show ?case
  proof (cases "scan_int s")
    case None
    with 4 show ?thesis by simp
  next
    case (Some t)
    obtain neg m r where t: "t = (neg, m, r)" by (cases t)
    from "4.prems" have ok: "stores_agree ds (Suc n)"
      and step: "agree (Suc n) (st (conv_d neg m) ps) (st (conv_d neg m) b)" by simp_all
    from "4.IH" [OF Some [unfolded t] refl refl ok step] Some t show ?thesis by simp
  qed
next
  case (5 st ds s n ps)
  show ?case
  proof (cases "scan_int s")
    case None
    with 5 show ?thesis by simp
  next
    case (Some t)
    obtain neg m r where t: "t = (neg, m, r)" by (cases t)
    from "5.prems" have ok: "stores_agree ds (Suc n)"
      and step: "agree (Suc n) (st (conv_lld neg m) ps) (st (conv_lld neg m) b)" by simp_all
    from "5.IH" [OF Some [unfolded t] refl refl ok step] Some t show ?thesis by simp
  qed
next
  case (6 st ds s n ps)
  show ?case
  proof (cases "scan_int s")
    case None
    with 6 show ?thesis by simp
  next
    case (Some t)
    obtain neg m r where t: "t = (neg, m, r)" by (cases t)
    from "6.prems" have ok: "stores_agree ds (Suc n)"
      and step: "agree (Suc n) (st (conv_llu neg m) ps) (st (conv_llu neg m) b)" by simp_all
    from "6.IH" [OF Some [unfolded t] refl refl ok step] Some t show ?thesis by simp
  qed
next
  case (7 st ds s n ps)
  show ?case
  proof (cases s)
    case Nil
    with 7 show ?thesis by simp
  next
    case (Cons x t)
    from "7.prems" have ok: "stores_agree ds (Suc n)"
      and step: "agree (Suc n) (st x ps) (st x b)" by simp_all
    from "7.IH" [OF Cons ok step] Cons show ?thesis by simp
  qed
next
  case (8 c st ds s n ps)
  show ?case
  proof (cases "takeWhile (\<lambda>x. x \<noteq> c) s = []")
    case True
    with 8 show ?thesis by simp
  next
    case False
    from "8.prems" have ok: "stores_agree ds (Suc n)"
      and step: "agree (Suc n) (st (takeWhile (\<lambda>x. x \<noteq> c) s) ps) (st (takeWhile (\<lambda>x. x \<noteq> c) s) b)"
      by simp_all
    from "8.IH" [OF refl False ok step] False show ?thesis by (simp add: Let_def)
  qed
qed

lemma sscanf_run_count: "fst (sscanf_run ds s n a) = fst (sscanf_run ds s n b)"
proof (induction ds s n a arbitrary: b rule: sscanf_run.induct)
  case (1 s n ps)
  show ?case by simp
next
  case (2 ds s n ps)
  from "2.IH" [of b] show ?case by simp
next
  case (3 c ds s n ps)
  show ?case
  proof (cases s)
    case Nil
    then show ?thesis by simp
  next
    case (Cons x t)
    from "3.IH" [OF Cons, of b] Cons show ?thesis by simp
  qed
next
  case (4 st ds s n ps)
  show ?case
  proof (cases "scan_int s")
    case None
    then show ?thesis by simp
  next
    case (Some t)
    obtain neg m r where t: "t = (neg, m, r)" by (cases t)
    from "4.IH" [OF Some [unfolded t] refl refl, of "st (conv_d neg m) b"] Some t
    show ?thesis by simp
  qed
next
  case (5 st ds s n ps)
  show ?case
  proof (cases "scan_int s")
    case None
    then show ?thesis by simp
  next
    case (Some t)
    obtain neg m r where t: "t = (neg, m, r)" by (cases t)
    from "5.IH" [OF Some [unfolded t] refl refl, of "st (conv_lld neg m) b"] Some t
    show ?thesis by simp
  qed
next
  case (6 st ds s n ps)
  show ?case
  proof (cases "scan_int s")
    case None
    then show ?thesis by simp
  next
    case (Some t)
    obtain neg m r where t: "t = (neg, m, r)" by (cases t)
    from "6.IH" [OF Some [unfolded t] refl refl, of "st (conv_llu neg m) b"] Some t
    show ?thesis by simp
  qed
next
  case (7 st ds s n ps)
  show ?case
  proof (cases s)
    case Nil
    then show ?thesis by simp
  next
    case (Cons x t)
    from "7.IH" [OF Cons, of "st x b"] Cons show ?thesis by simp
  qed
next
  case (8 c st ds s n ps)
  show ?case
  proof (cases "takeWhile (\<lambda>x. x \<noteq> c) s = []")
    case True
    then show ?thesis by simp
  next
    case False
    from "8.IH" [OF refl False, of "st (takeWhile (\<lambda>x. x \<noteq> c) s) b"] False
    show ?thesis by (simp add: Let_def)
  qed
qed

lemma agree_0: "agree 0 a b"
  by (simp add: agree_def)

lemma agree_39: "agree 39 a b \<Longrightarrow> a = b"
  by (cases a, cases b) (simp add: agree_def)

lemma stores_agree_stat_format: "stores_agree stat_format 0"
  unfolding stat_format_def by (simp add: agree_def)

lemma sscanf_run_stat_full:
  assumes "fst (sscanf_run stat_format buf 0 a) = 39"
  shows "snd (sscanf_run stat_format buf 0 a) = snd (sscanf_run stat_format buf 0 b)"
proof -
  have "agree 39 (snd (sscanf_run stat_format buf 0 a)) (snd (sscanf_run stat_format buf 0 b))"
    using sscanf_run_agree [OF stores_agree_stat_format agree_0, of buf a b] assms by simp
  then show ?thesis by (rule agree_39)
qed

lemma parse_fst: "fst (parse buf a) = (if fst (sscanf_run stat_format buf 0 a) = 39 then 0 else 1)"
  by (cases "sscanf_run stat_format buf 0 a")
     (simp add: parse_def sscanf_stat_def)

lemma parse_snd: "snd (parse buf a) = snd (sscanf_run stat_format buf 0 a)"
  by (cases "sscanf_run stat_format buf 0 a")
     (simp add: parse_def sscanf_stat_def)

lemma parse_retval: "fst (parse buf a) = fst (parse buf b)"
  using sscanf_run_count [of stat_format buf 0 a b] by (simp add: parse_fst)

lemma parse_retval_cases: "fst (parse buf a) = 0 \<or> fst (parse buf a) = 1"
  by (simp add: parse_fst)

lemma parse_success_indep:
  assumes "parse buf a = (0, ps)"
  shows "parse buf b = (0, ps)"
proof -
  from assms have a: "fst (parse buf a) = 0" and s: "snd (parse buf a) = ps" by simp_all
  from a have full: "fst (sscanf_run stat_format buf 0 a) = 39"
    by (simp add: parse_fst split: if_splits)
  have "fst (parse buf b) = 0" using a parse_retval [of buf b a] by simp
  moreover have "snd (parse buf b) = ps"
    using s sscanf_run_stat_full [OF full, of b] by (simp add: parse_snd)
  ultimately show ?thesis by (simp add: prod_eq_iff)
qed

lemma read_stat_retval: "fst (read_stat h c a) = fst (read_stat h c b)"
proof (cases "fgets 1024 c")
  case None
  then show ?thesis by (simp add: read_stat_def)
next
  case (Some buf)
  with parse_retval [of buf a b] show ?thesis by (simp add: read_stat_def)
qed

lemma read_stat_success_indep:
  assumes "read_stat h c a = (0, ps)" and "ERR_NULL h \<noteq> 0"
  shows "read_stat h c b = (0, ps)"
proof (cases "fgets 1024 c")
  case None
  with assms show ?thesis by (simp add: read_stat_def)
next
  case (Some buf)
  with assms have "parse buf a = (0, ps)" by (simp add: read_stat_def)
  then have "parse buf b = (0, ps)" by (rule parse_success_indep)
  with Some show ?thesis by (simp add: read_stat_def)
qed

subsection \<open>The loop of the text-format build\<close>

lemma accessible_Nil: "accessible [] = []"
  by (simp add: accessible_def map_filter_simps)

lemma accessible_Cons:
  "accessible ((d_name, stat) # es) =
     (if isdigit (first_char d_name) then (case stat of None \<Rightarrow> accessible es | Some c \<Rightarrow> c # accessible es)
      else accessible es)"
  by (simp add: accessible_def map_filter_simps split: option.splits)

lemma accessible_append: "accessible (es1 @ es2) = accessible es1 @ accessible es2"
  by (simp add: accessible_def map_filter_def)

lemma linux_entry_skip:
  "\<not> isdigit (first_char d_name) \<or> stat = None \<Longrightarrow> linux_entry h st (d_name, stat) = st"
  by (cases st) auto

lemma linux_entry_read:
  assumes "isdigit (first_char d_name)"
  shows "linux_entry h (ps, rv, pm) (d_name, Some c) =
     (snd (read_stat h c ps),
      (if fst (read_stat h c ps) \<noteq> 0 then fst (read_stat h c ps) else rv),
      (if fst (read_stat h c ps) \<noteq> 0 then pm
       else pm_insert (pid (snd (read_stat h c ps))) (linux_procinfo h (snd (read_stat h c ps))) pm))"
  using assms by (cases "read_stat h c ps") (simp add: Let_def linux_procinfo_def)

lemma linux_procinfo_id: "id' (linux_procinfo h ps) = pid ps"
  by (simp add: linux_procinfo_def Let_def)

lemma linux_scan_status:
  "fst (snd (foldl (linux_entry h) (ps, rv, pm) es)) =
     last (rv # filter (\<lambda>r. r \<noteq> 0) (map (\<lambda>c. fst (read_stat h c psx)) (accessible es)))"
proof (induction es arbitrary: ps rv pm)
  case Nil
  show ?case by (simp add: accessible_Nil)
next
  case (Cons e es)
  obtain d_name stat where e: "e = (d_name, stat)" by (cases e)
  show ?case
  proof (cases "isdigit (first_char d_name) \<and> stat \<noteq> None")
    case False
    then have "linux_entry h (ps, rv, pm) e = (ps, rv, pm)"
      using linux_entry_skip [of d_name stat h "(ps, rv, pm)"] e by auto
    moreover from False have "accessible (e # es) = accessible es"
      by (auto simp add: e accessible_Cons)
    ultimately show ?thesis using Cons.IH [where ps = ps and rv = rv and pm = pm] by simp
  next
    case True
    then obtain c where c: "stat = Some c" and d: "isdigit (first_char d_name)" by auto
    have r: "fst (read_stat h c ps) = fst (read_stat h c psx)" by (rule read_stat_retval)
    have acc: "accessible ((d_name, Some c) # es) = c # accessible es"
      by (simp add: d accessible_Cons)
    show ?thesis
      unfolding foldl_Cons e c linux_entry_read [OF d] acc
      by (simp add: Cons.IH r)
  qed
qed


lemma linux_scan_rv_indep:
  "fst (foldl (linux_entry h) (ps, rv, pm) es) = fst (foldl (linux_entry h) (ps, rv2, pm) es) \<and>
   snd (snd (foldl (linux_entry h) (ps, rv, pm) es)) = snd (snd (foldl (linux_entry h) (ps, rv2, pm) es))"
proof (induction es arbitrary: ps rv rv2 pm)
  case Nil
  show ?case by simp
next
  case (Cons e es)
  obtain d_name stat where e: "e = (d_name, stat)" by (cases e)
  show ?case
  proof (cases "isdigit (first_char d_name) \<and> stat \<noteq> None")
    case False
    then have "linux_entry h (ps, rv, pm) e = (ps, rv, pm)" "linux_entry h (ps, rv2, pm) e = (ps, rv2, pm)"
      using linux_entry_skip [of d_name stat h] e by auto
    then show ?thesis using Cons.IH [where ps = ps and rv = rv and pm = pm and ?rv2.0 = rv2] by simp
  next
    case True
    then obtain c where c: "stat = Some c" and d: "isdigit (first_char d_name)" by auto
    show ?thesis
      unfolding foldl_Cons e c linux_entry_read [OF d]
      by (rule Cons.IH)
  qed
qed

lemma linux_scan_stored:
  assumes "ERR_NULL h \<noteq> 0"
    and "(k, p) \<in> set (snd (snd (foldl (linux_entry h) (ps, rv, pm) es)))"
  shows "(k, p) \<in> set pm \<or>
     (\<exists>c\<in>set (accessible es). \<exists>ps1. read_stat h c psx = (0, ps1) \<and> k = pid ps1 \<and> p = linux_procinfo h ps1)"
  using assms(2)
proof (induction es arbitrary: ps rv pm)
  case Nil
  then show ?case by simp
next
  case (Cons e es)
  obtain d_name stat where e: "e = (d_name, stat)" by (cases e)
  show ?case
  proof (cases "isdigit (first_char d_name) \<and> stat \<noteq> None")
    case False
    then have "linux_entry h (ps, rv, pm) e = (ps, rv, pm)"
      using linux_entry_skip [of d_name stat h "(ps, rv, pm)"] e by auto
    moreover from False have "accessible (e # es) = accessible es"
      by (auto simp add: e accessible_Cons)
    ultimately show ?thesis using Cons.IH [where ps = ps and rv = rv and pm = pm] Cons.prems by simp
  next
    case True
    then obtain c where c: "stat = Some c" and d: "isdigit (first_char d_name)" by auto
    have acc: "accessible (e # es) = c # accessible es"
      by (simp add: e c d accessible_Cons)
    obtain r ps1 where rs: "read_stat h c ps = (r, ps1)" by (cases "read_stat h c ps")
    show ?thesis
    proof (cases "r = 0")
      case False
      with rs have step: "linux_entry h (ps, rv, pm) e = (ps1, r, pm)"
        by (simp add: e c d del: linux_entry.simps add: linux_entry_read [OF d])
      from Cons.prems have "(k, p) \<in> set (snd (snd (foldl (linux_entry h) (ps1, r, pm) es)))"
        by (simp add: step)
      from Cons.IH [OF this] show ?thesis by (auto simp add: acc)
    next
      case True
      with rs have step: "linux_entry h (ps, rv, pm) e = (ps1, rv, pm_insert (pid ps1) (linux_procinfo h ps1) pm)"
        by (simp add: e c d del: linux_entry.simps add: linux_entry_read [OF d])
      from rs True have "read_stat h c ps = (0, ps1)" by simp
      then have ok: "read_stat h c psx = (0, ps1)"
        by (rule read_stat_success_indep) (rule assms(1))
      from Cons.prems
      have "(k, p) \<in> set (snd (snd (foldl (linux_entry h) (ps1, rv, pm_insert (pid ps1) (linux_procinfo h ps1) pm) es)))"
        by (simp add: step)
      from Cons.IH [OF this]
      have "(k, p) \<in> set (pm_insert (pid ps1) (linux_procinfo h ps1) pm) \<or>
        (\<exists>c\<in>set (accessible es). \<exists>ps1. read_stat h c psx = (0, ps1) \<and> k = pid ps1 \<and> p = linux_procinfo h ps1)" .
      then show ?thesis
      proof
        assume "(k, p) \<in> set (pm_insert (pid ps1) (linux_procinfo h ps1) pm)"
        from pm_insert_cases [OF this] ok show ?thesis by (auto simp add: acc)
      next
        assume "\<exists>c\<in>set (accessible es). \<exists>ps1. read_stat h c psx = (0, ps1) \<and> k = pid ps1 \<and> p = linux_procinfo h ps1"
        then show ?thesis by (auto simp add: acc)
      qed
    qed
  qed
qed

lemma linux_scan_mono: "set pm \<subseteq> set (snd (snd (foldl (linux_entry h) (ps, rv, pm) es)))"
proof (induction es arbitrary: ps rv pm)
  case Nil
  show ?case by simp
next
  case (Cons e es)
  obtain d_name stat where e: "e = (d_name, stat)" by (cases e)
  show ?case
  proof (cases "isdigit (first_char d_name) \<and> stat \<noteq> None")
    case False
    then have "linux_entry h (ps, rv, pm) e = (ps, rv, pm)"
      using linux_entry_skip [of d_name stat h "(ps, rv, pm)"] e by auto
    then show ?thesis using Cons.IH [where ps = ps and rv = rv and pm = pm] by simp
  next
    case True
    then obtain c where c: "stat = Some c" and d: "isdigit (first_char d_name)" by auto
    obtain ps1 rv1 pm1 where step: "linux_entry h (ps, rv, pm) e = (ps1, rv1, pm1)"
      by (cases "linux_entry h (ps, rv, pm) e")
    then have "set pm \<subseteq> set pm1"
      using pm_insert_subset [of pm] by (auto simp add: e c d simp del: linux_entry.simps simp add: linux_entry_read [OF d] split: if_splits)
    with Cons.IH [where ps = ps1 and rv = rv1 and pm = pm1] show ?thesis by (auto simp add: step)
  qed
qed

lemma linux_scan_contains:
  assumes "ERR_NULL h \<noteq> 0" and "c \<in> set (accessible es)" and "read_stat h c psx = (0, ps1)"
  shows "pid ps1 \<in> fst ` set (snd (snd (foldl (linux_entry h) (ps, rv, pm) es)))"
  using assms(2)
proof (induction es arbitrary: ps rv pm)
  case Nil
  then show ?case by (simp add: accessible_Nil)
next
  case (Cons e es)
  obtain d_name stat where e: "e = (d_name, stat)" by (cases e)
  obtain ps2 rv2 pm2 where step: "linux_entry h (ps, rv, pm) e = (ps2, rv2, pm2)"
    by (cases "linux_entry h (ps, rv, pm) e")
  show ?case
  proof (cases "c \<in> set (accessible es)")
    case True
    from Cons.IH [OF this, where ps = ps2 and rv = rv2 and pm = pm2] show ?thesis by (simp add: step)
  next
    case False
    with Cons.prems have d: "isdigit (first_char d_name)" and c: "stat = Some c"
      by (auto simp add: e accessible_Cons split: if_splits option.splits)
    have "read_stat h c ps = (0, ps1)"
      using assms(3) by (rule read_stat_success_indep) (rule assms(1))
    with step have "pm2 = pm_insert (pid ps1) (linux_procinfo h ps1) pm"
      by (auto simp add: e c d simp del: linux_entry.simps simp add: linux_entry_read [OF d])
    then have "pid ps1 \<in> fst ` set pm2" by (simp add: pm_insert_keys)
    with linux_scan_mono [where pm = pm2 and h = h and ps = ps2 and rv = rv2 and es = es] show ?thesis
      by (auto simp add: step)
  qed
qed

lemma linux_scan_filter:
  "foldl (linux_entry h) st (filter (\<lambda>e. isdigit (first_char (fst e))) es) = foldl (linux_entry h) st es"
proof (induction es arbitrary: st)
  case Nil
  show ?case by simp
next
  case (Cons e es)
  obtain d_name stat where e: "e = (d_name, stat)" by (cases e)
  show ?case
  proof (cases "isdigit (first_char d_name)")
    case True
    then show ?thesis by (simp add: e Cons.IH)
  next
    case False
    then have "linux_entry h st e = st" using linux_entry_skip [of d_name stat h st] e by simp
    with False show ?thesis by (simp add: e Cons.IH)
  qed
qed

subsection \<open>The loop of the binary-struct build\<close>

lemma s_accessible_Nil: "s_accessible [] = []"
  by (simp add: s_accessible_def map_filter_simps)

lemma s_accessible_Cons:
  "s_accessible ((d_name, pf, uf) # es) =
     (if isdigit (first_char d_name)
      then (case pf of None \<Rightarrow> s_accessible es
            | Some pr \<Rightarrow> (case uf of None \<Rightarrow> s_accessible es | Some ur \<Rightarrow> (pr, ur) # s_accessible es))
      else s_accessible es)"
  by (simp add: s_accessible_def map_filter_simps split: option.splits)

lemma solaris_entry_skip:
  "\<not> isdigit (first_char d_name) \<or> pf = None \<or> uf = None \<Longrightarrow>
     solaris_entry h st (d_name, pf, uf) = st"
  by (cases st) (auto simp add: Let_def split: option.splits)

lemma solaris_entry_insert:
  assumes "isdigit (first_char d_name)"
  shows "solaris_entry h (rv, pm) (d_name, Some pr, Some ur) =
     (rv, pm_insert (id' (solaris_procinfo h pr ur)) (solaris_procinfo h pr ur) pm)"
  using assms by (simp add: Let_def solaris_procinfo_def)

lemma solaris_entry_cases:
  "solaris_entry h (rv, pm) e = (rv, pm) \<and> s_accessible (e # es) = s_accessible es \<or>
   (\<exists>pr ur. s_accessible (e # es) = (pr, ur) # s_accessible es \<and>
      solaris_entry h (rv, pm) e =
        (rv, pm_insert (id' (solaris_procinfo h pr ur)) (solaris_procinfo h pr ur) pm))"
proof -
  obtain d_name pf uf where e: "e = (d_name, pf, uf)" by (cases e)
  show ?thesis
  proof (cases "isdigit (first_char d_name) \<and> pf \<noteq> None \<and> uf \<noteq> None")
    case False
    then have "solaris_entry h (rv, pm) e = (rv, pm)"
      using solaris_entry_skip [of d_name pf uf h "(rv, pm)"] e by auto
    moreover from False have "s_accessible (e # es) = s_accessible es"
      by (auto simp add: e s_accessible_Cons split: option.splits)
    ultimately show ?thesis by simp
  next
    case True
    then obtain pr ur where p: "pf = Some pr" "uf = Some ur" and d: "isdigit (first_char d_name)"
      by auto
    have "s_accessible (e # es) = (pr, ur) # s_accessible es"
      by (simp add: e p d s_accessible_Cons)
    moreover have "solaris_entry h (rv, pm) e =
        (rv, pm_insert (id' (solaris_procinfo h pr ur)) (solaris_procinfo h pr ur) pm)"
      unfolding e p by (rule solaris_entry_insert [OF d])
    ultimately show ?thesis by blast
  qed
qed

lemma solaris_scan_status: "fst (foldl (solaris_entry h) (rv, pm) es) = rv"
proof (induction es arbitrary: pm)
  case Nil
  show ?case by simp
next
  case (Cons e es)
  from solaris_entry_cases [of h rv pm e es]
  obtain pm1 where "solaris_entry h (rv, pm) e = (rv, pm1)" by auto
  with Cons.IH [of pm1] show ?case by simp
qed

lemma solaris_scan_stored:
  assumes "(k, p) \<in> set (snd (foldl (solaris_entry h) (rv, pm) es))"
  shows "(k, p) \<in> set pm \<or>
     (\<exists>(pr, ur)\<in>set (s_accessible es). k = id' (solaris_procinfo h pr ur) \<and> p = solaris_procinfo h pr ur)"
  using assms
proof (induction es arbitrary: pm)
  case Nil
  then show ?case by simp
next
  case (Cons e es)
  from solaris_entry_cases [of h rv pm e es]
  show ?case
  proof
    assume a: "solaris_entry h (rv, pm) e = (rv, pm) \<and> s_accessible (e # es) = s_accessible es"
    with Cons.prems have "(k, p) \<in> set (snd (foldl (solaris_entry h) (rv, pm) es))" by simp
    from Cons.IH [OF this] a show ?thesis by simp
  next
    assume "\<exists>pr ur. s_accessible (e # es) = (pr, ur) # s_accessible es \<and>
      solaris_entry h (rv, pm) e =
        (rv, pm_insert (id' (solaris_procinfo h pr ur)) (solaris_procinfo h pr ur) pm)"
    then obtain pr ur where acc: "s_accessible (e # es) = (pr, ur) # s_accessible es"
      and step: "solaris_entry h (rv, pm) e =
        (rv, pm_insert (id' (solaris_procinfo h pr ur)) (solaris_procinfo h pr ur) pm)" by blast
    from Cons.prems have "(k, p) \<in> set (snd (foldl (solaris_entry h)
        (rv, pm_insert (id' (solaris_procinfo h pr ur)) (solaris_procinfo h pr ur) pm) es))"
      by (simp add: step)
    from Cons.IH [OF this]
    have "(k, p) \<in> set (pm_insert (id' (solaris_procinfo h pr ur)) (solaris_procinfo h pr ur) pm) \<or>
      (\<exists>(pr, ur)\<in>set (s_accessible es). k = id' (solaris_procinfo h pr ur) \<and> p = solaris_procinfo h pr ur)" .
    then show ?thesis
    proof
      assume "(k, p) \<in> set (pm_insert (id' (solaris_procinfo h pr ur)) (solaris_procinfo h pr ur) pm)"
      from pm_insert_cases [OF this] show ?thesis by (auto simp add: acc)
    next
      assume "\<exists>(pr, ur)\<in>set (s_accessible es). k = id' (solaris_procinfo h pr ur) \<and> p = solaris_procinfo h pr ur"
      then show ?thesis by (auto simp add: acc)
    qed
  qed
qed

lemma solaris_scan_mono: "set pm \<subseteq> set (snd (foldl (solaris_entry h) (rv, pm) es))"
proof (induction es arbitrary: pm)
  case Nil
  show ?case by simp
next
  case (Cons e es)
  from solaris_entry_cases [of h rv pm e es]
  obtain pm1 where step: "solaris_entry h (rv, pm) e = (rv, pm1)" and sub: "set pm \<subseteq> set pm1"
    using pm_insert_subset [of pm] by auto
  with Cons.IH [of pm1] show ?case by auto
qed

lemma solaris_scan_filter:
  "foldl (solaris_entry h) st (filter (\<lambda>e. isdigit (first_char (fst e))) es) = foldl (solaris_entry h) st es"
proof (induction es arbitrary: st)
  case Nil
  show ?case by simp
next
  case (Cons e es)
  obtain d_name pf uf where e: "e = (d_name, pf, uf)" by (cases e)
  show ?case
  proof (cases "isdigit (first_char d_name)")
    case True
    then show ?thesis by (simp add: e Cons.IH)
  next
    case False
    then have "solaris_entry h st e = st" using solaris_entry_skip [of d_name pf uf h st] e by simp
    with False show ?thesis by (simp add: e Cons.IH)
  qed
qed

subsection \<open>Which entries reach the map\<close>

lemma accessible_iff:
  "c \<in> set (accessible es) \<longleftrightarrow> (\<exists>d_name. (d_name, Some c) \<in> set es \<and> isdigit (first_char d_name))"
proof (induction es)
  case Nil
  show ?case by (simp add: accessible_Nil)
next
  case (Cons e es)
  obtain d_name stat where e: "e = (d_name, stat)" by (cases e)
  show ?case unfolding e accessible_Cons using Cons.IH
    by (cases stat) auto
qed

lemma s_accessible_iff:
  "(pr, ur) \<in> set (s_accessible ss) \<longleftrightarrow>
     (\<exists>d_name. (d_name, Some pr, Some ur) \<in> set ss \<and> isdigit (first_char d_name))"
proof (induction ss)
  case Nil
  show ?case by (simp add: s_accessible_Nil)
next
  case (Cons e ss)
  obtain d_name pf uf where e: "e = (d_name, pf, uf)" by (cases e)
  show ?case unfolding e s_accessible_Cons using Cons.IH
    by (cases pf; cases uf) auto
qed

lemma solaris_scan_contains:
  assumes "(pr, ur) \<in> set (s_accessible ss)"
  shows "id' (solaris_procinfo h pr ur) \<in> fst ` set (snd (foldl (solaris_entry h) (rv, pm) ss))"
  using assms
proof (induction ss arbitrary: pm)
  case Nil
  then show ?case by (simp add: s_accessible_Nil)
next
  case (Cons e ss)
  from solaris_entry_cases [of h rv pm e ss]
  show ?case
  proof
    assume a: "solaris_entry h (rv, pm) e = (rv, pm) \<and> s_accessible (e # ss) = s_accessible ss"
    with Cons.prems have "(pr, ur) \<in> set (s_accessible ss)" by simp
    from Cons.IH [OF this, of pm] a show ?thesis by simp
  next
    assume "\<exists>pr ur. s_accessible (e # ss) = (pr, ur) # s_accessible ss \<and>
      solaris_entry h (rv, pm) e =
        (rv, pm_insert (id' (solaris_procinfo h pr ur)) (solaris_procinfo h pr ur) pm)"
    then obtain pr' ur' where acc: "s_accessible (e # ss) = (pr', ur') # s_accessible ss"
      and step: "solaris_entry h (rv, pm) e =
        (rv, pm_insert (id' (solaris_procinfo h pr' ur')) (solaris_procinfo h pr' ur') pm)" by blast
    let ?pm1 = "pm_insert (id' (solaris_procinfo h pr' ur')) (solaris_procinfo h pr' ur') pm"
    show ?thesis
    proof (cases "(pr, ur) \<in> set (s_accessible ss)")
      case True
      from Cons.IH [OF this, of ?pm1] show ?thesis by (simp add: step)
    next
      case False
      with Cons.prems acc have "pr = pr'" "ur = ur'" by auto
      then have "id' (solaris_procinfo h pr ur) \<in> fst ` set ?pm1" by (simp add: pm_insert_keys)
      with solaris_scan_mono [of ?pm1 h rv ss] show ?thesis by (auto simp add: step)
    qed
  qed
qed

lemma solaris_procinfo_id:
  "id' (solaris_procinfo h pr ur) = (case pr of None \<Rightarrow> 0 | Some psinfo \<Rightarrow> pr_pid psinfo)"
  by (cases pr; cases ur)
     (simp_all add: solaris_procinfo_def solaris_psinfo_def solaris_usage_def clear_def Let_def)

text \<open>The examples, evaluated once.\<close>

lemma read_stat_line_7: "read_stat (linux_on es) stat_line_7 ps_start = (0, rec_7)"
  by code_simp


lemma scan_solaris_5:
  "procinfo_setup_solaris (solaris_on [(''5'', Some (Some psinfo_5), Some (Some usage_5))]) [] =
     (0, [(5, entry_5)])"
  by code_simp

subsection \<open>The status that procinfo\_setup returns\<close>

lemma last_nonzero:
  "last ((0::int) # filter (\<lambda>r. r \<noteq> 0) rs) = 0 \<longleftrightarrow> (\<forall>r\<in>set rs. r = 0)"
proof (cases "filter (\<lambda>r. r \<noteq> 0) rs = []")
  case True
  then show ?thesis by (simp add: filter_empty_conv)
next
  case False
  then have "last (filter (\<lambda>r. r \<noteq> 0) rs) \<in> set (filter (\<lambda>r. r \<noteq> 0) rs)" by (rule last_in_set)
  then have "last (filter (\<lambda>r. r \<noteq> 0) rs) \<noteq> 0" by simp
  with False show ?thesis by (auto simp add: filter_empty_conv)
qed

lemma procinfo_setup_linux_unfold:
  assumes "proc_dir h = Some es"
  shows "procinfo_setup_linux h ps0 pm =
     (fst (snd (foldl (linux_entry h) (ps0, 0, pm) es)),
      find_children (snd (snd (foldl (linux_entry h) (ps0, 0, pm) es))))"
  using assms by (simp add: procinfo_setup_linux_def split: prod.splits)

lemma procinfo_setup_solaris_unfold:
  assumes "s_proc_dir h = Some es"
  shows "procinfo_setup_solaris h pm =
     (fst (foldl (solaris_entry h) (0, pm) es),
      find_children (snd (foldl (solaris_entry h) (0, pm) es)))"
  using assms by (simp add: procinfo_setup_solaris_def split: prod.splits)

lemma solaris_status_always_zero: "fst (procinfo_setup_solaris hs pm) = 0"
proof (cases "s_proc_dir hs")
  case None
  then show ?thesis by (simp add: procinfo_setup_solaris_def)
next
  case (Some ss)
  then show ?thesis by (simp add: procinfo_setup_solaris_unfold solaris_scan_status)
qed

lemma find_children_key_set: "fst ` set (find_children pm) = fst ` set pm"
  using find_children_keys [of pm] by (metis set_map)

text \<open>
  The status of the text-format build. \<open>procinfo_setup\<close> returns a status and a map
  for every directory listing. With \<open>ERR_NULL\<close> not zero, the status is the \<open>retval\<close>
  of the last entry, among those whose name begins with a digit and whose \<open>stat\<close> file
  could be opened, for which \<open>retval\<close> was not zero, and 0 when there is none; so it is
  0 exactly when every such entry was read and parsed. A failed entry does not end the
  scan: the process id of every record that parsed is a key of the returned map, wherever
  the entry stands in the listing. (\<open>ps\<close> is any record: what \<open>read_stat\<close> returns as
  status, and on success as record, does not depend on it.)
\<close>

theorem procinfo_setup_linux_status:
  assumes "proc_dir h = Some es" and "ERR_NULL h \<noteq> 0"
  shows "fst (procinfo_setup_linux h ps0 pm) =
           last (0 # filter (\<lambda>r. r \<noteq> 0) (map (\<lambda>c. fst (read_stat h c ps)) (accessible es))) \<and>
         (fst (procinfo_setup_linux h ps0 pm) = 0 \<longleftrightarrow>
            (\<forall>c\<in>set (accessible es). fst (read_stat h c ps) = 0)) \<and>
         (\<forall>c\<in>set (accessible es). \<forall>ps1. read_stat h c ps = (0, ps1) \<longrightarrow>
            pid ps1 \<in> fst ` set (snd (procinfo_setup_linux h ps0 pm)))"
proof -
  have st: "fst (procinfo_setup_linux h ps0 pm) =
      last (0 # filter (\<lambda>r. r \<noteq> 0) (map (\<lambda>c. fst (read_stat h c ps)) (accessible es)))"
    by (simp add: procinfo_setup_linux_unfold [OF assms(1)] linux_scan_status [where psx = ps])
  have z: "fst (procinfo_setup_linux h ps0 pm) = 0 \<longleftrightarrow>
      (\<forall>c\<in>set (accessible es). fst (read_stat h c ps) = 0)"
    unfolding st last_nonzero by simp
  have k: "pid ps1 \<in> fst ` set (snd (procinfo_setup_linux h ps0 pm))"
    if "c \<in> set (accessible es)" and "read_stat h c ps = (0, ps1)" for c ps1
    using linux_scan_contains [OF assms(2) that, of ps0 0 pm]
    by (simp add: procinfo_setup_linux_unfold [OF assms(1)] find_children_key_set)
  from st z k show ?thesis by blast
qed

theorem procinfo_setup_linux_status_witness:
  "proc_dir (linux_on mixed_dir) = Some mixed_dir \<and> ERR_NULL (linux_on mixed_dir) \<noteq> 0 \<and>
   map (\<lambda>c. fst (read_stat (linux_on mixed_dir) c ps_start)) (accessible mixed_dir) = [0, 1, - 116, 0] \<and>
   fst (procinfo_setup_linux (linux_on mixed_dir) ps_start []) = - 116"
proof -
  have h1: "proc_dir (linux_on mixed_dir) = Some mixed_dir" by (simp add: linux_on_def)
  have h2: "ERR_NULL (linux_on mixed_dir) \<noteq> 0" by (simp add: linux_on_def)
  have ev: "map (\<lambda>c. fst (read_stat (linux_on mixed_dir) c ps_start)) (accessible mixed_dir) = [0, 1, - 116, 0]"
    by code_simp
  from procinfo_setup_linux_status [OF h1 h2, of ps_start "[]" ps_start] h1 h2 ev
  show ?thesis by simp
qed

text \<open>
  Claim C2. The claim asks for a status that is zero exactly when every entry that was
  read decoded, and that is the code of the last failure otherwise. The text-format build
  does this (\<open>procinfo_setup_linux_status\<close>): it sets \<open>final_retval\<close> for each failed
  entry and goes on. The binary-struct build does not: its branch tests \<open>fread\<close> and never
  assigns \<open>final_retval\<close>, so the status is 0 whatever the reads gave
  (\<open>solaris_status_always_zero\<close>). Here the \<open>psinfo\<close> file of entry 5 holds fewer bytes
  than a \<open>psinfo_t\<close>, the decode fails, and the status is 0.
\<close>

theorem solaris_status_zero_after_short_read:
  "fst (procinfo_setup_solaris (solaris_on [(''5'', Some None, Some (Some usage_5))]) []) = 0"
  by code_simp

subsection \<open>A short read in the binary-struct build\<close>

text \<open>
  Claim C5. The claim asks that an entry whose \<open>fread\<close> comes up short be left out of
  the map and that the status report it. The code does neither: \<open>fread\<close> is tested, but
  nothing is done when it fails, so the cleared entry is inserted all the same. With a
  short \<open>psinfo\<close> the entry goes in under key 0, with the times of the \<open>usage\<close> file and
  no name; the status stays 0.
\<close>

theorem solaris_truncated_psinfo_admitted:
  "procinfo_setup_solaris (solaris_on [(''5'', Some None, Some (Some usage_5))]) [] =
     (0, [(0, \<lparr>id' = 0, parentid = 0, command = [], swap_size = 0, working_set_size = 0,
               page_fault_count = 3, user_time = 5 / 2, kernel_time = 7 / 2,
               is_boinc_app = False, is_low_priority = False, children = [0]\<rparr>)])"
  by code_simp

text \<open>With a short \<open>usage\<close> the entry goes in under its own key, with both times 0.\<close>

lemma solaris_truncated_usage_admitted:
  "procinfo_setup_solaris (solaris_on [(''5'', Some (Some psinfo_5), Some None)]) [] =
     (0, [(5, \<lparr>id' = 5, parentid = 1, command = ''sshd'', swap_size = 2048000,
               working_set_size = 307200, page_fault_count = 0, user_time = 0, kernel_time = 0,
               is_boinc_app = False, is_low_priority = False, children = []\<rparr>)])"
  by code_simp

subsection \<open>A stat file that opens and is empty\<close>

lemma linux_entry_proc_dir: "linux_entry (h\<lparr>proc_dir := d\<rparr>) = linux_entry h"
proof (intro ext)
  fix st :: "PROC_STAT \<times> int \<times> PROC_MAP" and e :: "string \<times> string option"
  obtain ps rv pm where st: "st = (ps, rv, pm)" by (cases st)
  obtain d_name stat where e: "e = (d_name, stat)" by (cases e)
  have r: "read_stat (h\<lparr>proc_dir := d\<rparr>) = read_stat h"
    by (intro ext) (simp add: read_stat_def split: option.splits)
  have p: "linux_procinfo (h\<lparr>proc_dir := d\<rparr>) = linux_procinfo h"
    by (intro ext) (simp add: linux_procinfo_def)
  show "linux_entry (h\<lparr>proc_dir := d\<rparr>) st e = linux_entry h st e"
    by (simp add: st e r p split: option.splits prod.splits)
qed

lemma solaris_entry_proc_dir: "solaris_entry (h\<lparr>s_proc_dir := d\<rparr>) = solaris_entry h"
proof (intro ext)
  fix st :: "int \<times> PROC_MAP" and e :: "string \<times> psinfo_t option option \<times> prusage_t option option"
  obtain rv pm where st: "st = (rv, pm)" by (cases st)
  obtain d_name pf uf where e: "e = (d_name, pf, uf)" by (cases e)
  have p: "solaris_psinfo (h\<lparr>s_proc_dir := d\<rparr>) = solaris_psinfo h"
    by (intro ext) (simp add: solaris_psinfo_def)
  show "solaris_entry (h\<lparr>s_proc_dir := d\<rparr>) st e = solaris_entry h st e"
    by (simp add: st e p Let_def split: option.splits)
qed

text \<open>
  Claim C10. In the text-format build, an entry whose \<open>stat\<close> file opens but holds
  nothing makes \<open>fgets\<close> return null and \<open>retval\<close> become \<open>ERR_NULL\<close>. The entry adds
  nothing to the map, which is the map of the same scan without that entry; the returned
  status is not zero, and it is \<open>ERR_NULL\<close> when no later entry fails.
\<close>

theorem empty_stat_file_reported:
  assumes "proc_dir h = Some (es1 @ (d_name, Some []) # es2)"
    and "isdigit (first_char d_name)" and "ERR_NULL h \<noteq> 0"
  shows "snd (procinfo_setup_linux h ps0 pm) =
           snd (procinfo_setup_linux (h\<lparr>proc_dir := Some (es1 @ es2)\<rparr>) ps0 pm) \<and>
         fst (procinfo_setup_linux h ps0 pm) \<noteq> 0 \<and>
         ((\<forall>c\<in>set (accessible es2). fst (read_stat h c ps) = 0) \<longrightarrow>
            fst (procinfo_setup_linux h ps0 pm) = ERR_NULL h)"
proof -
  obtain psA rvA pmA where A: "foldl (linux_entry h) (ps0, 0, pm) es1 = (psA, rvA, pmA)"
    by (cases "foldl (linux_entry h) (ps0, 0, pm) es1")
  have rd: "read_stat h [] psA = (ERR_NULL h, psA)"
    by (simp add: read_stat_def fgets_def)
  have step: "linux_entry h (psA, rvA, pmA) (d_name, Some []) = (psA, ERR_NULL h, pmA)"
    using assms(3) by (simp del: linux_entry.simps add: linux_entry_read [OF assms(2)] rd)
  have full: "foldl (linux_entry h) (ps0, 0, pm) (es1 @ (d_name, Some []) # es2) =
      foldl (linux_entry h) (psA, ERR_NULL h, pmA) es2"
    by (simp del: linux_entry.simps add: A step)
  have without: "foldl (linux_entry h) (ps0, 0, pm) (es1 @ es2) =
      foldl (linux_entry h) (psA, rvA, pmA) es2"
    by (simp del: linux_entry.simps add: A)
  have pd: "proc_dir (h\<lparr>proc_dir := Some (es1 @ es2)\<rparr>) = Some (es1 @ es2)" by simp
  have same: "snd (snd (foldl (linux_entry h) (psA, ERR_NULL h, pmA) es2)) =
      snd (snd (foldl (linux_entry h) (psA, rvA, pmA) es2))"
    using linux_scan_rv_indep [of h psA "ERR_NULL h" pmA es2 rvA] by simp
  have snap: "snd (procinfo_setup_linux h ps0 pm) =
      snd (procinfo_setup_linux (h\<lparr>proc_dir := Some (es1 @ es2)\<rparr>) ps0 pm)"
    unfolding procinfo_setup_linux_unfold [OF assms(1)] procinfo_setup_linux_unfold [OF pd]
      linux_entry_proc_dir full without
    by (simp add: same)
  have st: "fst (procinfo_setup_linux h ps0 pm) =
      last (ERR_NULL h # filter (\<lambda>r. r \<noteq> 0) (map (\<lambda>c. fst (read_stat h c ps)) (accessible es2)))"
    unfolding procinfo_setup_linux_unfold [OF assms(1)] full
    by (simp add: linux_scan_status [where psx = ps])
  have "last (ERR_NULL h # filter (\<lambda>r. r \<noteq> 0) (map (\<lambda>c. fst (read_stat h c ps)) (accessible es2)))
      \<in> set (ERR_NULL h # filter (\<lambda>r. r \<noteq> 0) (map (\<lambda>c. fst (read_stat h c ps)) (accessible es2)))"
    by (rule last_in_set) simp
  with assms(3) have nz: "fst (procinfo_setup_linux h ps0 pm) \<noteq> 0"
    unfolding st by auto
  have en: "fst (procinfo_setup_linux h ps0 pm) = ERR_NULL h"
    if "\<forall>c\<in>set (accessible es2). fst (read_stat h c ps) = 0"
  proof -
    from that have "filter (\<lambda>r. r \<noteq> 0) (map (\<lambda>c. fst (read_stat h c ps)) (accessible es2)) = []"
      by (simp add: filter_empty_conv)
    then show ?thesis unfolding st by simp
  qed
  from snap nz en show ?thesis by blast
qed

theorem empty_stat_file_reported_witness:
  "proc_dir (linux_on ([(''7'', Some stat_line_7)] @ (''10'', Some []) # [(''12'', Some stat_line_12)])) =
     Some ([(''7'', Some stat_line_7)] @ (''10'', Some []) # [(''12'', Some stat_line_12)]) \<and>
   isdigit (first_char ''10'') \<and>
   ERR_NULL (linux_on ([(''7'', Some stat_line_7)] @ (''10'', Some []) # [(''12'', Some stat_line_12)])) \<noteq> 0 \<and>
   map (\<lambda>c. fst (read_stat (linux_on ([(''7'', Some stat_line_7)] @ (''10'', Some []) # [(''12'', Some stat_line_12)])) c ps_start))
     (accessible [(''12'', Some stat_line_12)]) = [0] \<and>
   fst (procinfo_setup_linux (linux_on ([(''7'', Some stat_line_7)] @ (''10'', Some []) # [(''12'', Some stat_line_12)])) ps_start []) = - 116"
proof -
  let ?h = "linux_on ([(''7'', Some stat_line_7)] @ (''10'', Some []) # [(''12'', Some stat_line_12)])"
  have h1: "proc_dir ?h = Some ([(''7'', Some stat_line_7)] @ (''10'', Some []) # [(''12'', Some stat_line_12)])"
    by (simp add: linux_on_def)
  have h2: "isdigit (first_char ''10'')" by (simp add: isdigit_def first_char_def)
  have h3: "ERR_NULL ?h \<noteq> 0" by (simp add: linux_on_def)
  have m: "map (\<lambda>c. fst (read_stat ?h c ps_start)) (accessible [(''12'', Some stat_line_12)]) = [0]"
    by code_simp
  then have "set (map (\<lambda>c. fst (read_stat ?h c ps_start)) (accessible [(''12'', Some stat_line_12)])) = {0}"
    by simp
  then have h4: "\<forall>c\<in>set (accessible [(''12'', Some stat_line_12)]). fst (read_stat ?h c ps_start) = 0"
    by auto
  have e: "ERR_NULL ?h = - 116" by (simp add: linux_on_def)
  from empty_stat_file_reported [OF h1 h2 h3, of ps_start "[]" ps_start] h4
  have "fst (procinfo_setup_linux ?h ps_start []) = ERR_NULL ?h" by blast
  with h1 h2 h3 m e show ?thesis by simp
qed

subsection \<open>The flag is\_boinc\_app\<close>

lemma strcasestr_contains: "strcasestr hay needle \<longleftrightarrow> contains_ci hay needle"
proof (induction hay)
  case Nil
  show ?case by (auto simp add: contains_ci_def)
next
  case (Cons c hay)
  have here: "take (length needle) (map tolower (c # hay)) = map tolower needle \<longleftrightarrow>
      (\<exists>mid post. c # hay = mid @ post \<and> map tolower mid = map tolower needle)"
  proof
    assume a: "take (length needle) (map tolower (c # hay)) = map tolower needle"
    have "c # hay = take (length needle) (c # hay) @ drop (length needle) (c # hay)" by simp
    moreover have "map tolower (take (length needle) (c # hay)) = map tolower needle"
      using a by (simp only: take_map)
    ultimately show "\<exists>mid post. c # hay = mid @ post \<and> map tolower mid = map tolower needle"
      by blast
  next
    assume "\<exists>mid post. c # hay = mid @ post \<and> map tolower mid = map tolower needle"
    then obtain mid post where s: "c # hay = mid @ post" and m: "map tolower mid = map tolower needle"
      by blast
    from m have "length mid = length needle" by (metis length_map)
    then show "take (length needle) (map tolower (c # hay)) = map tolower needle"
      unfolding s using m by simp
  qed
  have split: "contains_ci (c # hay) needle \<longleftrightarrow>
      (\<exists>mid post. c # hay = mid @ post \<and> map tolower mid = map tolower needle) \<or> contains_ci hay needle"
  proof
    assume "contains_ci (c # hay) needle"
    then obtain pre mid post where s: "c # hay = pre @ mid @ post"
      and m: "map tolower mid = map tolower needle" by (auto simp add: contains_ci_def)
    show "(\<exists>mid post. c # hay = mid @ post \<and> map tolower mid = map tolower needle) \<or> contains_ci hay needle"
    proof (cases pre)
      case Nil
      with s m show ?thesis by auto
    next
      case (Cons x pre')
      with s have "hay = pre' @ mid @ post" by simp
      with m show ?thesis by (auto simp add: contains_ci_def)
    qed
  next
    assume "(\<exists>mid post. c # hay = mid @ post \<and> map tolower mid = map tolower needle) \<or> contains_ci hay needle"
    then show "contains_ci (c # hay) needle"
    proof
      assume "\<exists>mid post. c # hay = mid @ post \<and> map tolower mid = map tolower needle"
      then obtain mid post where "c # hay = [] @ mid @ post" "map tolower mid = map tolower needle"
        by auto
      then show ?thesis unfolding contains_ci_def by blast
    next
      assume "contains_ci hay needle"
      then obtain pre mid post where "hay = pre @ mid @ post" "map tolower mid = map tolower needle"
        by (auto simp add: contains_ci_def)
      then have "c # hay = (c # pre) @ mid @ post" "map tolower mid = map tolower needle" by simp_all
      then show ?thesis unfolding contains_ci_def by blast
    qed
  qed
  show ?case by (simp only: strcasestr.simps here split Cons.IH)
qed

lemma linux_scan_built:
  assumes "(k, p) \<in> set (snd (snd (foldl (linux_entry h) (ps, rv, pm) es)))"
  shows "(k, p) \<in> set pm \<or> (\<exists>ps1. k = pid ps1 \<and> p = linux_procinfo h ps1)"
  using assms
proof (induction es arbitrary: ps rv pm)
  case Nil
  then show ?case by simp
next
  case (Cons e es)
  obtain d_name stat where e: "e = (d_name, stat)" by (cases e)
  show ?case
  proof (cases "isdigit (first_char d_name) \<and> stat \<noteq> None")
    case False
    then have "linux_entry h (ps, rv, pm) e = (ps, rv, pm)"
      using linux_entry_skip [of d_name stat h "(ps, rv, pm)"] e by auto
    with Cons.prems have "(k, p) \<in> set (snd (snd (foldl (linux_entry h) (ps, rv, pm) es)))" by simp
    from Cons.IH [OF this] show ?thesis .
  next
    case True
    then obtain c where c: "stat = Some c" and d: "isdigit (first_char d_name)" by auto
    obtain ps1 rv1 pm1 where step: "linux_entry h (ps, rv, pm) e = (ps1, rv1, pm1)"
      by (cases "linux_entry h (ps, rv, pm) e")
    then have pm1: "pm1 = pm \<or> pm1 = pm_insert (pid ps1) (linux_procinfo h ps1) pm"
      by (auto simp add: e c d simp del: linux_entry.simps simp add: linux_entry_read [OF d] split: if_splits)
    from Cons.prems have "(k, p) \<in> set (snd (snd (foldl (linux_entry h) (ps1, rv1, pm1) es)))"
      by (simp add: step)
    from Cons.IH [OF this] have "(k, p) \<in> set pm1 \<or> (\<exists>ps1. k = pid ps1 \<and> p = linux_procinfo h ps1)" .
    then show ?thesis
    proof
      assume "(k, p) \<in> set pm1"
      with pm1 pm_insert_cases [of "(k, p)" "pid ps1" "linux_procinfo h ps1" pm]
      show ?thesis by auto
    next
      assume "\<exists>ps1. k = pid ps1 \<and> p = linux_procinfo h ps1"
      then show ?thesis by simp
    qed
  qed
qed

lemma linux_procinfo_boinc:
  "is_boinc_app (linux_procinfo h ps) \<longleftrightarrow>
     id' (linux_procinfo h ps) = getpid h \<or> strcasestr (command (linux_procinfo h ps)) ''boinc''"
  by (simp add: linux_procinfo_def Let_def)

lemma solaris_procinfo_boinc:
  "is_boinc_app (solaris_procinfo h pr ur) \<longleftrightarrow>
     id' (solaris_procinfo h pr ur) = s_getpid h \<or>
     strcasestr (command (solaris_procinfo h pr ur)) ''boinc''"
  by (simp add: solaris_procinfo_def Let_def)

text \<open>
  Claim C9. In either build, for every entry that a scan adds to the map,
  \<open>is_boinc_app\<close> is true exactly when the entry's \<open>id\<close> is the scanning process's own
  id (\<open>getpid()\<close>) or the stored command name contains \<open>boinc\<close> somewhere in it, whatever
  the case of its letters; in every other case it is false. An entry that was in the map
  before the scan is the caller's, and keeps the flag it had.
\<close>

theorem is_boinc_app_iff:
  "(proc_dir h = Some es \<and> (k, p) \<in> set (snd (procinfo_setup_linux h ps0 pm)) \<and>
      k \<notin> fst ` set pm \<longrightarrow>
      (is_boinc_app p \<longleftrightarrow> id' p = getpid h \<or> contains_ci (command p) ''boinc'')) \<and>
   (s_proc_dir hs = Some ss \<and> (k, p) \<in> set (snd (procinfo_setup_solaris hs pm)) \<and>
      k \<notin> fst ` set pm \<longrightarrow>
      (is_boinc_app p \<longleftrightarrow> id' p = s_getpid hs \<or> contains_ci (command p) ''boinc''))"
proof (intro conjI impI)
  assume a: "proc_dir h = Some es \<and> (k, p) \<in> set (snd (procinfo_setup_linux h ps0 pm)) \<and>
      k \<notin> fst ` set pm"
  then have pd: "proc_dir h = Some es" by simp
  from a have "(k, p) \<in> set (find_children (snd (snd (foldl (linux_entry h) (ps0, 0, pm) es))))"
    by (simp add: procinfo_setup_linux_unfold [OF pd])
  from find_children_entry [OF this]
  obtain q where q: "(k, q) \<in> set (snd (snd (foldl (linux_entry h) (ps0, 0, pm) es)))"
    and p: "p = q\<lparr>children := children p\<rparr>" by blast
  from a have "(k, q) \<notin> set pm" by force
  with linux_scan_built [OF q] obtain ps1 where "q = linux_procinfo h ps1" by blast
  with linux_procinfo_boinc [of h ps1]
  have "is_boinc_app q \<longleftrightarrow> id' q = getpid h \<or> contains_ci (command q) ''boinc''"
    by (simp add: strcasestr_contains)
  moreover from p have "is_boinc_app p = is_boinc_app q" "id' p = id' q" "command p = command q"
    by (metis PROCINFO.select_convs PROCINFO.surjective PROCINFO.update_convs(11))+
  ultimately show "is_boinc_app p \<longleftrightarrow> id' p = getpid h \<or> contains_ci (command p) ''boinc''"
    by simp
next
  assume a: "s_proc_dir hs = Some ss \<and> (k, p) \<in> set (snd (procinfo_setup_solaris hs pm)) \<and>
      k \<notin> fst ` set pm"
  then have pd: "s_proc_dir hs = Some ss" by simp
  from a have "(k, p) \<in> set (find_children (snd (foldl (solaris_entry hs) (0, pm) ss)))"
    by (simp add: procinfo_setup_solaris_unfold [OF pd])
  from find_children_entry [OF this]
  obtain q where q: "(k, q) \<in> set (snd (foldl (solaris_entry hs) (0, pm) ss))"
    and p: "p = q\<lparr>children := children p\<rparr>" by blast
  from a have "(k, q) \<notin> set pm" by force
  with solaris_scan_stored [OF q] obtain pr ur where "q = solaris_procinfo hs pr ur" by blast
  with solaris_procinfo_boinc [of hs pr ur]
  have "is_boinc_app q \<longleftrightarrow> id' q = s_getpid hs \<or> contains_ci (command q) ''boinc''"
    by (simp add: strcasestr_contains)
  moreover from p have "is_boinc_app p = is_boinc_app q" "id' p = id' q" "command p = command q"
    by (metis PROCINFO.select_convs PROCINFO.surjective PROCINFO.update_convs(11))+
  ultimately show "is_boinc_app p \<longleftrightarrow> id' p = s_getpid hs \<or> contains_ci (command p) ''boinc''"
    by simp
qed


theorem is_boinc_app_iff_witness:
  "proc_dir (linux_on [(''12'', Some stat_line_12)]) = Some [(''12'', Some stat_line_12)] \<and>
   (12, entry_12) \<in> set (snd (procinfo_setup_linux (linux_on [(''12'', Some stat_line_12)]) ps_start [])) \<and>
   12 \<notin> fst ` set ([] :: PROC_MAP) \<and>
   is_boinc_app entry_12 \<and> id' entry_12 \<noteq> getpid (linux_on [(''12'', Some stat_line_12)]) \<and>
   contains_ci (command entry_12) ''boinc'' \<and>
   s_proc_dir (solaris_on [(''5'', Some (Some psinfo_5), Some (Some usage_5))]) =
     Some [(''5'', Some (Some psinfo_5), Some (Some usage_5))] \<and>
   (5, entry_5) \<in> set (snd (procinfo_setup_solaris
      (solaris_on [(''5'', Some (Some psinfo_5), Some (Some usage_5))]) [])) \<and>
   5 \<notin> fst ` set ([] :: PROC_MAP) \<and>
   \<not> is_boinc_app entry_5 \<and>
   \<not> (id' entry_5 = s_getpid (solaris_on [(''5'', Some (Some psinfo_5), Some (Some usage_5))]) \<or>
      contains_ci (command entry_5) ''boinc'')"
proof -
  let ?h = "linux_on [(''12'', Some stat_line_12)]"
  let ?hs = "solaris_on [(''5'', Some (Some psinfo_5), Some (Some usage_5))]"
  have l1: "proc_dir ?h = Some [(''12'', Some stat_line_12)]" by (simp add: linux_on_def)
  have l2: "snd (procinfo_setup_linux ?h ps_start []) = [(12, entry_12)]" by code_simp
  have l3: "is_boinc_app entry_12" "id' entry_12 \<noteq> getpid ?h"
    by (simp_all add: entry_12_def linux_on_def)
  have s1: "s_proc_dir ?hs = Some [(''5'', Some (Some psinfo_5), Some (Some usage_5))]"
    by (simp add: solaris_on_def)
  have s2: "snd (procinfo_setup_solaris ?hs []) = [(5, entry_5)]" by code_simp
  have s3: "\<not> is_boinc_app entry_5" by (simp add: entry_5_def)
  note t = is_boinc_app_iff [of ?h "[(''12'', Some stat_line_12)]" 12 entry_12 ps_start "[]"
      ?hs "[(''5'', Some (Some psinfo_5), Some (Some usage_5))]"]
  note u = is_boinc_app_iff [of ?h "[(''12'', Some stat_line_12)]" 5 entry_5 ps_start "[]"
      ?hs "[(''5'', Some (Some psinfo_5), Some (Some usage_5))]"]
  from t l1 l2 l3 have c1: "contains_ci (command entry_12) ''boinc''" by simp
  from u s1 s2 s3
  have c2: "\<not> (id' entry_5 = s_getpid ?hs \<or> contains_ci (command entry_5) ''boinc'')" by simp
  from l1 l2 l3 c1 s1 s2 s3 c2 show ?thesis by simp
qed

subsection \<open>Inserting under a key that is present\<close>

text \<open>
  Claim C6, as amended. \<open>pm.insert\<close> is \<open>std::map::insert\<close>, which does not overwrite:
  when the process id is already a key of the map, the insertion leaves the map as it
  is, so the entry stored first is kept and the newly built one is dropped. This holds for
  the insertion itself and for the loop body of either build.
\<close>

theorem insert_keeps_stored_entry:
  "(k \<in> fst ` set pm \<longrightarrow> pm_insert k p pm = pm) \<and>
   (isdigit (first_char d_name) \<and> read_stat h c ps = (0, ps1) \<and> pid ps1 \<in> fst ` set pm \<longrightarrow>
      linux_entry h (ps, rv, pm) (d_name, Some c) = (ps1, rv, pm)) \<and>
   (isdigit (first_char d_name) \<and> id' (solaris_procinfo hs pr ur) \<in> fst ` set pm \<longrightarrow>
      solaris_entry hs (rv, pm) (d_name, Some pr, Some ur) = (rv, pm))"
proof (intro conjI impI)
  assume "k \<in> fst ` set pm"
  then show "pm_insert k p pm = pm" by (simp add: pm_insert_def)
next
  assume a: "isdigit (first_char d_name) \<and> read_stat h c ps = (0, ps1) \<and> pid ps1 \<in> fst ` set pm"
  then have d: "isdigit (first_char d_name)" by simp
  from a show "linux_entry h (ps, rv, pm) (d_name, Some c) = (ps1, rv, pm)"
    by (simp del: linux_entry.simps add: linux_entry_read [OF d] pm_insert_def)
next
  assume a: "isdigit (first_char d_name) \<and> id' (solaris_procinfo hs pr ur) \<in> fst ` set pm"
  then have d: "isdigit (first_char d_name)" by simp
  from a show "solaris_entry hs (rv, pm) (d_name, Some pr, Some ur) = (rv, pm)"
    by (simp del: solaris_entry.simps add: solaris_entry_insert [OF d] pm_insert_def)
qed

theorem insert_keeps_stored_entry_witness:
  "7 \<in> fst ` set [(7 :: c_int, entry_7)] \<and>
   pm_insert 7 (entry_7\<lparr>command := ''second''\<rparr>) [(7, entry_7)] = [(7, entry_7)] \<and>
   isdigit (first_char ''7'') \<and>
   fst (read_stat (linux_on []) stat_line_7b ps_start) = 0 \<and>
   pid (snd (read_stat (linux_on []) stat_line_7b ps_start)) \<in> fst ` set [(7 :: c_int, entry_7)] \<and>
   snd (snd (linux_entry (linux_on []) (ps_start, 0, [(7, entry_7)]) (''7'', Some stat_line_7b))) =
     [(7, entry_7)] \<and>
   id' (solaris_procinfo (solaris_on []) (Some (psinfo_5\<lparr>pr_pid := 7\<rparr>)) None) \<in> fst ` set [(7 :: c_int, entry_7)] \<and>
   solaris_entry (solaris_on []) (0, [(7, entry_7)]) (''7'', Some (Some (psinfo_5\<lparr>pr_pid := 7\<rparr>)), Some None) =
     (0, [(7, entry_7)])"
proof -
  let ?ps1 = "snd (read_stat (linux_on []) stat_line_7b ps_start)"
  have a1: "7 \<in> fst ` set [(7 :: c_int, entry_7)]" by simp
  have a2: "isdigit (first_char ''7'')" by (simp add: isdigit_def first_char_def)
  have a3: "fst (read_stat (linux_on []) stat_line_7b ps_start) = 0" by code_simp
  then have a3': "read_stat (linux_on []) stat_line_7b ps_start = (0, ?ps1)"
    by (simp add: prod_eq_iff)
  have a4: "pid ?ps1 = 7" by code_simp
  have a5: "id' (solaris_procinfo (solaris_on []) (Some (psinfo_5\<lparr>pr_pid := 7\<rparr>)) None) = 7"
    by (simp add: solaris_procinfo_def solaris_psinfo_def psinfo_5_def clear_def Let_def)
  note t = insert_keeps_stored_entry [of 7 "[(7, entry_7)]" "entry_7\<lparr>command := ''second''\<rparr>"
      "''7''" "linux_on []" stat_line_7b ps_start ?ps1 0 "solaris_on []"
      "Some (psinfo_5\<lparr>pr_pid := 7\<rparr>)" None]
  from t a1 a2 a3 a3' a4 a5 show ?thesis by simp
qed

text \<open>
  A listing that yields the id 7 twice: the map holds the entry of the first record (command
  \<open>first\<close>), not that of the second.
\<close>

theorem insert_replaces_counterexample:
  "procinfo_setup_linux (linux_on [(''7'', Some stat_line_7), (''7'', Some stat_line_7b)]) ps_start [] =
     (0, [(7, \<lparr>id' = 7, parentid = 1, command = ''first'', swap_size = 166912000,
               working_set_size = 1228800, page_fault_count = 1030, user_time = 5,
               kernel_time = 6, is_boinc_app = False, is_low_priority = True,
               children = []\<rparr>)])"
  by code_simp

subsection \<open>Entries that are not processes\<close>

text \<open>
  Claim C7, as amended. The test is \<open>isdigit(piddir->d_name[0])\<close>, on the first
  character of the name only. In either build a process id is a key of the returned map
  exactly when it was a key before, or it comes from an entry whose name begins with a
  decimal digit (whatever follows the first character) and whose files could be opened:
  in the text-format build the \<open>pid\<close> of the record when it parsed, in the
  binary-struct build the \<open>pr_pid\<close> that was read, or 0 after a short read. So every
  entry whose name begins with a digit is processed, and an entry whose name does not
  begin with a digit adds no key; it has no effect at all, the result being that of the
  listing with these entries removed.
\<close>

theorem entries_processed_by_first_character:
  "(proc_dir h = Some es \<and> ERR_NULL h \<noteq> 0 \<longrightarrow>
      (k \<in> fst ` set (snd (procinfo_setup_linux h ps0 pm)) \<longleftrightarrow>
         k \<in> fst ` set pm \<or>
         (\<exists>d_name c ps1. (d_name, Some c) \<in> set es \<and> isdigit (first_char d_name) \<and>
            read_stat h c ps = (0, ps1) \<and> k = pid ps1))) \<and>
   (s_proc_dir hs = Some ss \<longrightarrow>
      (k \<in> fst ` set (snd (procinfo_setup_solaris hs pm)) \<longleftrightarrow>
         k \<in> fst ` set pm \<or>
         (\<exists>d_name pr ur. (d_name, Some pr, Some ur) \<in> set ss \<and> isdigit (first_char d_name) \<and>
            k = (case pr of None \<Rightarrow> 0 | Some psinfo \<Rightarrow> pr_pid psinfo)))) \<and>
   procinfo_setup_linux (h\<lparr>proc_dir := Some (filter (\<lambda>e. isdigit (first_char (fst e))) es)\<rparr>) ps0 pm =
     procinfo_setup_linux (h\<lparr>proc_dir := Some es\<rparr>) ps0 pm \<and>
   procinfo_setup_solaris (hs\<lparr>s_proc_dir := Some (filter (\<lambda>e. isdigit (first_char (fst e))) ss)\<rparr>) pm =
     procinfo_setup_solaris (hs\<lparr>s_proc_dir := Some ss\<rparr>) pm"
proof (intro conjI impI)
  assume a: "proc_dir h = Some es \<and> ERR_NULL h \<noteq> 0"
  then have pd: "proc_dir h = Some es" and en: "ERR_NULL h \<noteq> 0" by simp_all
  let ?pm' = "snd (snd (foldl (linux_entry h) (ps0, 0, pm) es))"
  have keys: "fst ` set (snd (procinfo_setup_linux h ps0 pm)) = fst ` set ?pm'"
    by (simp add: procinfo_setup_linux_unfold [OF pd] find_children_key_set)
  show "k \<in> fst ` set (snd (procinfo_setup_linux h ps0 pm)) \<longleftrightarrow>
         k \<in> fst ` set pm \<or>
         (\<exists>d_name c ps1. (d_name, Some c) \<in> set es \<and> isdigit (first_char d_name) \<and>
            read_stat h c ps = (0, ps1) \<and> k = pid ps1)"
  proof
    assume "k \<in> fst ` set (snd (procinfo_setup_linux h ps0 pm))"
    then obtain p where "(k, p) \<in> set ?pm'" unfolding keys by force
    from linux_scan_stored [OF en this, of ps]
    have "(k, p) \<in> set pm \<or>
      (\<exists>c ps1. c \<in> set (accessible es) \<and> read_stat h c ps = (0, ps1) \<and> k = pid ps1)"
      by blast
    then show "k \<in> fst ` set pm \<or>
         (\<exists>d_name c ps1. (d_name, Some c) \<in> set es \<and> isdigit (first_char d_name) \<and>
            read_stat h c ps = (0, ps1) \<and> k = pid ps1)"
    proof
      assume "(k, p) \<in> set pm"
      then show ?thesis by force
    next
      assume "\<exists>c ps1. c \<in> set (accessible es) \<and> read_stat h c ps = (0, ps1) \<and> k = pid ps1"
      then obtain c ps1 where "c \<in> set (accessible es)" "read_stat h c ps = (0, ps1)" "k = pid ps1"
        by blast
      moreover from this(1) obtain d_name where "(d_name, Some c) \<in> set es" "isdigit (first_char d_name)"
        by (auto simp add: accessible_iff)
      ultimately show ?thesis by blast
    qed
  next
    assume "k \<in> fst ` set pm \<or>
         (\<exists>d_name c ps1. (d_name, Some c) \<in> set es \<and> isdigit (first_char d_name) \<and>
            read_stat h c ps = (0, ps1) \<and> k = pid ps1)"
    then show "k \<in> fst ` set (snd (procinfo_setup_linux h ps0 pm))"
    proof
      assume "k \<in> fst ` set pm"
      with linux_scan_mono [of pm h ps0 0 es] show ?thesis unfolding keys by auto
    next
      assume "\<exists>d_name c ps1. (d_name, Some c) \<in> set es \<and> isdigit (first_char d_name) \<and>
            read_stat h c ps = (0, ps1) \<and> k = pid ps1"
      then obtain d_name c ps1 where "(d_name, Some c) \<in> set es" "isdigit (first_char d_name)"
        and r: "read_stat h c ps = (0, ps1)" and k: "k = pid ps1" by blast
      then have "c \<in> set (accessible es)" by (auto simp add: accessible_iff)
      from linux_scan_contains [OF en this r, of ps0 0 pm] show ?thesis by (simp add: keys k)
    qed
  qed
next
  assume pd: "s_proc_dir hs = Some ss"
  let ?pm' = "snd (foldl (solaris_entry hs) (0, pm) ss)"
  have keys: "fst ` set (snd (procinfo_setup_solaris hs pm)) = fst ` set ?pm'"
    by (simp add: procinfo_setup_solaris_unfold [OF pd] find_children_key_set)
  show "k \<in> fst ` set (snd (procinfo_setup_solaris hs pm)) \<longleftrightarrow>
         k \<in> fst ` set pm \<or>
         (\<exists>d_name pr ur. (d_name, Some pr, Some ur) \<in> set ss \<and> isdigit (first_char d_name) \<and>
            k = (case pr of None \<Rightarrow> 0 | Some psinfo \<Rightarrow> pr_pid psinfo))"
  proof
    assume "k \<in> fst ` set (snd (procinfo_setup_solaris hs pm))"
    then obtain p where "(k, p) \<in> set ?pm'" unfolding keys by force
    from solaris_scan_stored [OF this]
    have "(k, p) \<in> set pm \<or>
      (\<exists>pr ur. (pr, ur) \<in> set (s_accessible ss) \<and> k = id' (solaris_procinfo hs pr ur))"
      by blast
    then show "k \<in> fst ` set pm \<or>
         (\<exists>d_name pr ur. (d_name, Some pr, Some ur) \<in> set ss \<and> isdigit (first_char d_name) \<and>
            k = (case pr of None \<Rightarrow> 0 | Some psinfo \<Rightarrow> pr_pid psinfo))"
    proof
      assume "(k, p) \<in> set pm"
      then show ?thesis by force
    next
      assume "\<exists>pr ur. (pr, ur) \<in> set (s_accessible ss) \<and> k = id' (solaris_procinfo hs pr ur)"
      then obtain pr ur where m: "(pr, ur) \<in> set (s_accessible ss)"
        and "k = id' (solaris_procinfo hs pr ur)" by blast
      then have "k = (case pr of None \<Rightarrow> 0 | Some psinfo \<Rightarrow> pr_pid psinfo)"
        by (simp add: solaris_procinfo_id)
      moreover from m obtain d_name where "(d_name, Some pr, Some ur) \<in> set ss"
        "isdigit (first_char d_name)" by (auto simp add: s_accessible_iff)
      ultimately show ?thesis by blast
    qed
  next
    assume "k \<in> fst ` set pm \<or>
         (\<exists>d_name pr ur. (d_name, Some pr, Some ur) \<in> set ss \<and> isdigit (first_char d_name) \<and>
            k = (case pr of None \<Rightarrow> 0 | Some psinfo \<Rightarrow> pr_pid psinfo))"
    then show "k \<in> fst ` set (snd (procinfo_setup_solaris hs pm))"
    proof
      assume "k \<in> fst ` set pm"
      with solaris_scan_mono [of pm hs 0 ss] show ?thesis unfolding keys by auto
    next
      assume "\<exists>d_name pr ur. (d_name, Some pr, Some ur) \<in> set ss \<and> isdigit (first_char d_name) \<and>
            k = (case pr of None \<Rightarrow> 0 | Some psinfo \<Rightarrow> pr_pid psinfo)"
      then obtain d_name pr ur where "(d_name, Some pr, Some ur) \<in> set ss" "isdigit (first_char d_name)"
        and k: "k = (case pr of None \<Rightarrow> 0 | Some psinfo \<Rightarrow> pr_pid psinfo)" by blast
      then have "(pr, ur) \<in> set (s_accessible ss)" by (auto simp add: s_accessible_iff)
      from solaris_scan_contains [OF this, of hs 0 pm] show ?thesis
        by (simp add: keys k solaris_procinfo_id)
    qed
  qed
next
  show "procinfo_setup_linux (h\<lparr>proc_dir := Some (filter (\<lambda>e. isdigit (first_char (fst e))) es)\<rparr>) ps0 pm =
     procinfo_setup_linux (h\<lparr>proc_dir := Some es\<rparr>) ps0 pm"
    by (simp add: procinfo_setup_linux_def linux_entry_proc_dir linux_scan_filter)
next
  show "procinfo_setup_solaris (hs\<lparr>s_proc_dir := Some (filter (\<lambda>e. isdigit (first_char (fst e))) ss)\<rparr>) pm =
     procinfo_setup_solaris (hs\<lparr>s_proc_dir := Some ss\<rparr>) pm"
    by (simp add: procinfo_setup_solaris_def solaris_entry_proc_dir solaris_scan_filter)
qed

theorem entries_processed_by_first_character_witness:
  "proc_dir (linux_on [(''self'', Some stat_line_12), (''8x'', Some stat_line_7)]) =
     Some [(''self'', Some stat_line_12), (''8x'', Some stat_line_7)] \<and>
   ERR_NULL (linux_on [(''self'', Some stat_line_12), (''8x'', Some stat_line_7)]) \<noteq> 0 \<and>
   isdigit (first_char ''8x'') \<and> \<not> isdigit (first_char ''self'') \<and>
   read_stat (linux_on [(''self'', Some stat_line_12), (''8x'', Some stat_line_7)]) stat_line_7 ps_start =
     (0, rec_7) \<and>
   pid rec_7 = 7 \<and>
   7 \<in> fst ` set (snd (procinfo_setup_linux
      (linux_on [(''self'', Some stat_line_12), (''8x'', Some stat_line_7)]) ps_start [])) \<and>
   12 \<notin> fst ` set (snd (procinfo_setup_linux
      (linux_on [(''self'', Some stat_line_12), (''8x'', Some stat_line_7)]) ps_start [])) \<and>
   s_proc_dir (solaris_on [(''curproc'', Some (Some (psinfo_5\<lparr>pr_pid := 6\<rparr>)), Some (Some usage_5)),
      (''5x'', Some (Some psinfo_5), Some (Some usage_5))]) =
     Some [(''curproc'', Some (Some (psinfo_5\<lparr>pr_pid := 6\<rparr>)), Some (Some usage_5)),
      (''5x'', Some (Some psinfo_5), Some (Some usage_5))] \<and>
   5 \<in> fst ` set (snd (procinfo_setup_solaris
      (solaris_on [(''curproc'', Some (Some (psinfo_5\<lparr>pr_pid := 6\<rparr>)), Some (Some usage_5)),
        (''5x'', Some (Some psinfo_5), Some (Some usage_5))]) [])) \<and>
   6 \<notin> fst ` set (snd (procinfo_setup_solaris
      (solaris_on [(''curproc'', Some (Some (psinfo_5\<lparr>pr_pid := 6\<rparr>)), Some (Some usage_5)),
        (''5x'', Some (Some psinfo_5), Some (Some usage_5))]) []))"
proof -
  let ?es = "[(''self'', Some stat_line_12), (''8x'', Some stat_line_7)]"
  let ?h = "linux_on ?es"
  let ?ss = "[(''curproc'', Some (Some (psinfo_5\<lparr>pr_pid := 6\<rparr>)), Some (Some usage_5)),
      (''5x'', Some (Some psinfo_5), Some (Some usage_5))]"
  let ?hs = "solaris_on ?ss"
  have l1: "proc_dir ?h = Some ?es" and l2: "ERR_NULL ?h \<noteq> 0" by (simp_all add: linux_on_def)
  have d1: "isdigit (first_char ''8x'')" and d2: "\<not> isdigit (first_char ''self'')"
    and d3: "isdigit (first_char ''5x'')" and d4: "\<not> isdigit (first_char ''curproc'')"
    by (simp_all add: isdigit_def first_char_def)
  have r: "read_stat ?h stat_line_7 ps_start = (0, rec_7)" by (rule read_stat_line_7)
  have p7: "pid rec_7 = 7" by (simp add: rec_7_def)
  have s1: "s_proc_dir ?hs = Some ?ss" by (simp add: solaris_on_def)
  note t7 = entries_processed_by_first_character [of ?h ?es 7 ps_start "[]" ps_start ?hs ?ss]
  note t12 = entries_processed_by_first_character [of ?h ?es 12 ps_start "[]" ps_start ?hs ?ss]
  note t5 = entries_processed_by_first_character [of ?h ?es 5 ps_start "[]" ps_start ?hs ?ss]
  note t6 = entries_processed_by_first_character [of ?h ?es 6 ps_start "[]" ps_start ?hs ?ss]
  have "\<exists>d_name c ps1. (d_name, Some c) \<in> set ?es \<and> isdigit (first_char d_name) \<and>
      read_stat ?h c ps_start = (0, ps1) \<and> 7 = pid ps1"
    using d1 r p7 by (intro exI [of _ "''8x''"] exI [of _ stat_line_7] exI [of _ rec_7]) simp
  with t7 l1 l2 have k7: "7 \<in> fst ` set (snd (procinfo_setup_linux ?h ps_start []))" by blast
  have "\<not> (\<exists>d_name c ps1. (d_name, Some c) \<in> set ?es \<and> isdigit (first_char d_name) \<and>
      read_stat ?h c ps_start = (0, ps1) \<and> 12 = pid ps1)"
    using d1 d2 r p7 by auto
  with t12 l1 l2 have k12: "12 \<notin> fst ` set (snd (procinfo_setup_linux ?h ps_start []))" by simp
  have "\<exists>d_name pr ur. (d_name, Some pr, Some ur) \<in> set ?ss \<and> isdigit (first_char d_name) \<and>
      5 = (case pr of None \<Rightarrow> 0 | Some psinfo \<Rightarrow> pr_pid psinfo)"
    using d3 by (intro exI [of _ "''5x''"] exI [of _ "Some psinfo_5"] exI [of _ "Some usage_5"])
      (simp add: psinfo_5_def)
  with t5 s1 have k5: "5 \<in> fst ` set (snd (procinfo_setup_solaris ?hs []))" by blast
  have "\<not> (\<exists>d_name pr ur. (d_name, Some pr, Some ur) \<in> set ?ss \<and> isdigit (first_char d_name) \<and>
      6 = (case pr of None \<Rightarrow> 0 | Some psinfo \<Rightarrow> pr_pid psinfo))"
    using d3 d4 by (auto simp add: psinfo_5_def)
  with t6 s1 have k6: "6 \<notin> fst ` set (snd (procinfo_setup_solaris ?hs []))" by simp
  from l1 l2 d1 d2 r p7 k7 k12 s1 k5 k6 show ?thesis by simp
qed

text \<open>An entry named \<open>8x\<close> is processed, and its record adds the key 7.\<close>

theorem non_numeric_name_counterexample:
  "map fst (snd (procinfo_setup_linux (linux_on [(''8x'', Some stat_line_7)]) ps_start [])) = [7]"
  by code_simp

subsection \<open>Rounding to a floating-point format\<close>









subsection \<open>Memory sizes\<close>








subsection \<open>CPU times\<close>

text \<open>
  In the text-format build each time is the tick count of its own counter, converted to
  \<open>double\<close> and divided by 100.
\<close>

lemma linux_procinfo_times:
  "user_time (linux_procinfo h ps) = double_div (double_of_int (uint (utime ps))) 100 \<and>
   kernel_time (linux_procinfo h ps) = double_div (double_of_int (uint (stime ps))) 100"
  by (simp add: linux_procinfo_def Let_def)

text \<open>
  In the binary-struct build \<open>kernel_time\<close> takes its seconds from \<open>pr_stime\<close> and its
  nanoseconds from \<open>pr_utime\<close>: the nanoseconds of \<open>pr_stime\<close> are never read.
\<close>

lemma solaris_kernel_time_ignores_stime_nsec:
  "kernel_time (solaris_usage (u\<lparr>pr_stime := (pr_stime u)\<lparr>tv_nsec := n\<rparr>\<rparr>) p) =
     kernel_time (solaris_usage u p)"
  by (simp add: solaris_usage_def)

text \<open>
  Claim C4. The claim asks that each time be the seconds and nanoseconds of its own
  counter. For a process with 2.5 s of user time and 3 s of kernel time the code stores
  \<open>user_time\<close> 5/2 and \<open>kernel_time\<close> 7/2: the kernel time has the user time's half
  second added, where the claim gives 3.
\<close>

theorem solaris_kernel_time_evaluated:
  "pr_utime usage_5 = \<lparr>tv_sec = 2, tv_nsec = 500000000\<rparr> \<and>
   pr_stime usage_5 = \<lparr>tv_sec = 3, tv_nsec = 0\<rparr> \<and>
   procinfo_setup_solaris (solaris_on [(''5'', Some (Some psinfo_5), Some (Some usage_5))]) [] =
     (0, [(5, entry_5)]) \<and>
   user_time entry_5 = 5 / 2 \<and> kernel_time entry_5 = 7 / 2"
  using scan_solaris_5 by (simp add: usage_5_def entry_5_def)

subsection \<open>Scanning a field\<close>




lemma sign_not_digit: "\<not> isdigit CHR ''-''" "\<not> isdigit CHR ''+''"
  by (simp_all add: isdigit_def)









subsection \<open>The conversions that succeed, and the layout\<close>




lemma sscanf_run_lower: "n \<le> fst (sscanf_run ds s n ps)"
proof (induction ds s n ps rule: sscanf_run.induct)
  case (1 s n ps)
  show ?case by simp
next
  case (2 ds s n ps)
  then show ?case by simp
next
  case (3 c ds s n ps)
  then show ?case by (cases s) simp_all
next
  case (4 st ds s n ps)
  show ?case
  proof (cases "scan_int s")
    case None
    then show ?thesis by simp
  next
    case (Some t)
    obtain neg m r where t: "t = (neg, m, r)" by (cases t)
    from "4.IH" [OF Some [unfolded t] refl refl] Some t show ?thesis by simp
  qed
next
  case (5 st ds s n ps)
  show ?case
  proof (cases "scan_int s")
    case None
    then show ?thesis by simp
  next
    case (Some t)
    obtain neg m r where t: "t = (neg, m, r)" by (cases t)
    from "5.IH" [OF Some [unfolded t] refl refl] Some t show ?thesis by simp
  qed
next
  case (6 st ds s n ps)
  show ?case
  proof (cases "scan_int s")
    case None
    then show ?thesis by simp
  next
    case (Some t)
    obtain neg m r where t: "t = (neg, m, r)" by (cases t)
    from "6.IH" [OF Some [unfolded t] refl refl] Some t show ?thesis by simp
  qed
next
  case (7 st ds s n ps)
  show ?case
  proof (cases s)
    case Nil
    then show ?thesis by simp
  next
    case (Cons x t)
    from "7.IH" [OF Cons] Cons show ?thesis by simp
  qed
next
  case (8 c st ds s n ps)
  show ?case
  proof (cases "takeWhile (\<lambda>x. x \<noteq> c) s = []")
    case True
    then show ?thesis by simp
  next
    case False
    from "8.IH" [OF refl False] False show ?thesis by (simp add: Let_def)
  qed
qed









subsection \<open>Parsing a written record\<close>






















subsection \<open>PROC\_STAT::parse\<close>




end
